theory Spec2Isabelle
  imports Main
begin

section \<open>The Minesweeper game engine\<close>

text \<open>
  The repository holds two editions of one program: \<^verbatim>\<open>Minesweeper.pyw\<close> (here
  \<open>Basic\<close>) and a later edition with a clock and a scoreboard (here \<open>Timed\<close>). Their
  game logic differs in two places only: the \<open>Timed\<close> edition guards \<open>check_win\<close> with a
  \<open>has_won\<close> attribute and calls it only when \<open>check_adjacent\<close> is true, and its winning
  message is \<open>You win\<close> instead of \<open>You won\<close>. The clock, the score file and the
  scoreboard label are input and output around the engine and are left out.
\<close>

datatype edition = Basic | Timed

text \<open>The Python exceptions the engine can raise.\<close>

datatype error = AttributeError | TypeError | IndexError | ValueError

text \<open>
  A square is a \<open>Label\<close> of \<open>self.__squares\<close>, or Python's \<open>None\<close> (what \<open>get_square\<close>
  returns outside the grid). \<open>start_game\<close> creates the labels row by row, so the label at
  list position \<open>i\<close> is named by \<open>i\<close>: \<open>self.__squares[i]\<close> is \<open>Some i\<close>, and
  \<open>self.__square_coordinates\<close> maps it to \<open>[i mod size, i div size]\<close>.
\<close>

type_synonym square = "nat option"

text \<open>
  The attributes of the \<open>Minesweeper\<close> object that the game logic reads and writes. The
  three lists are Python lists (order and duplicates kept). \<open>mines_label\<close> and
  \<open>undiscovered_squares\<close> are the \<open>text\<close> options of the two counter labels,
  \<open>ending_text\<close> that of the message label, \<open>images\<close> the \<open>image\<close> option of every square
  as an index into \<open>IMAGE_FILES\<close> (0 to 8 a count, 9 a mine, 10 hidden, 11 a flag, 12 the
  exploded mine), and \<open>bound\<close> tells whether the squares still have their mouse bindings.
\<close>

record game =
  size :: nat
  undiscovered_mines :: nat
  marked_squares :: "square list"
  activated_squares :: "square list"
  mine_squares :: "square list"
  mines_label :: int
  undiscovered_squares :: int
  ending_text :: string
  images :: "nat \<Rightarrow> nat"
  bound :: bool
  has_won :: bool

text \<open>
  A call either returns or raises; in both cases the object is left in some state, which
  the outcome carries. The recursive functions take the number of nested
  \<open>activate_square\<close> calls they may still open; \<open>None\<close> means that this number did not
  suffice.
\<close>

datatype outcome = Returned game | Raised error game

fun state_of :: "outcome \<Rightarrow> game" where
  "state_of (Returned g) = g"
| "state_of (Raised e g) = g"

fun then_run :: "outcome option \<Rightarrow> (game \<Rightarrow> outcome option) \<Rightarrow> outcome option" where
  "then_run None k = None"
| "then_run (Some (Raised e g)) k = Some (Raised e g)"
| "then_run (Some (Returned g)) k = k g"

subsection \<open>Squares and coordinates\<close>

definition get_square :: "game \<Rightarrow> int \<Rightarrow> int \<Rightarrow> square" where
  "get_square g x y =
     (if y \<ge> int (size g) \<or> x \<ge> int (size g) \<or> y < 0 \<or> x < 0 then None
      else Some (nat (y * int (size g) + x)))"

text \<open>\<open>self.__square_coordinates.get(square)\<close>: \<open>None\<close> for a key the dictionary lacks.\<close>

definition square_coordinates :: "game \<Rightarrow> square \<Rightarrow> (int \<times> int) option" where
  "square_coordinates g square =
     (case square of
        None \<Rightarrow> None
      | Some i \<Rightarrow> if i < size g * size g
                  then Some (int (i mod size g), int (i div size g)) else None)"

text \<open>
  The nine coordinates visited by
  \<^verbatim>\<open>for y in range(column - 1, column + 2): for x in range(row - 1, row + 2)\<close>,
  in that order.
\<close>

definition window :: "int \<Rightarrow> int \<Rightarrow> (int \<times> int) list" where
  "window row column =
     concat (map (\<lambda>y. map (\<lambda>x. (x, y)) [row - 1, row, row + 1])
                 [column - 1, column, column + 1])"

text \<open>\<^verbatim>\<open>for y in range(size): for x in range(size)\<close>.\<close>

definition all_coordinates :: "nat \<Rightarrow> (int \<times> int) list" where
  "all_coordinates n =
     concat (map (\<lambda>y. map (\<lambda>x. (int x, int y)) [0..<n]) [0..<n])"

text \<open>\<open>square.configure(image=...)\<close>; on \<open>None\<close> the attribute lookup fails.\<close>

definition configure :: "game \<Rightarrow> square \<Rightarrow> nat \<Rightarrow> outcome" where
  "configure g square img =
     (case square of
        None \<Rightarrow> Raised AttributeError g
      | Some i \<Rightarrow> Returned (g\<lparr>images := (images g)(i := img)\<rparr>))"

subsection \<open>Counting mines and flags\<close>

fun count_around :: "game \<Rightarrow> square \<Rightarrow> (int \<times> int) list \<Rightarrow> nat \<times> nat \<Rightarrow> nat \<times> nat" where
  "count_around g square [] acc = acc"
| "count_around g square ((x, y) # cs) (mines, flags) =
     (let current_square = get_square g x y in
      if current_square = square then count_around g square cs (mines, flags)
      else count_around g square cs
             (if current_square \<in> set (mine_squares g) then mines + 1 else mines,
              if current_square \<in> set (marked_squares g) then flags + 1 else flags))"

definition calculate_mines_and_flags :: "game \<Rightarrow> square \<Rightarrow> error + nat \<times> nat" where
  "calculate_mines_and_flags g square =
     (case square_coordinates g square of
        None \<Rightarrow> Inl TypeError
      | Some (row, column) \<Rightarrow> Inr (count_around g square (window row column) (0, 0)))"

subsection \<open>Flags\<close>

definition mark_square :: "game \<Rightarrow> int \<Rightarrow> int \<Rightarrow> outcome" where
  "mark_square g x y =
     (let square = get_square g x y in
      if square \<in> set (activated_squares g) then Returned g
      else
        let old_value = mines_label g in
        if square \<in> set (marked_squares g) then
          (case configure (g\<lparr>marked_squares := remove1 square (marked_squares g)\<rparr>) square 10 of
             Raised e g' \<Rightarrow> Raised e g'
           | Returned g' \<Rightarrow> Returned (g'\<lparr>mines_label := old_value + 1\<rparr>))
        else if old_value > 0 then
          (case configure (g\<lparr>marked_squares := marked_squares g @ [square]\<rparr>) square 11 of
             Raised e g' \<Rightarrow> Raised e g'
           | Returned g' \<Rightarrow> Returned (g'\<lparr>mines_label := old_value - 1\<rparr>))
        else Returned g)"

subsection \<open>Placing the mines\<close>

text \<open>\<open>list.pop(i)\<close>: a negative index counts from the end.\<close>

definition list_pop :: "'a list \<Rightarrow> int \<Rightarrow> error + 'a list" where
  "list_pop xs i =
     (let n = int (length xs); j = (if i < 0 then i + n else i) in
      if 0 \<le> j \<and> j < n then Inr (take (nat j) xs @ drop (Suc (nat j)) xs)
      else Inl IndexError)"

text \<open>
  \<open>random.sample(population, k)\<close> raises \<open>ValueError\<close> when \<open>k\<close> exceeds the population
  and otherwise returns \<open>k\<close> elements drawn without replacement. The drawn list is not
  determined by the program; it is the argument \<open>drawn\<close>, and \<open>is_sample\<close> says what the
  library promises about it.
\<close>

definition sample :: "nat list \<Rightarrow> nat \<Rightarrow> nat list \<Rightarrow> error + nat list" where
  "sample population k drawn = (if k > length population then Inl ValueError else Inr drawn)"

definition is_sample :: "nat list \<Rightarrow> nat \<Rightarrow> nat list \<Rightarrow> bool" where
  "is_sample population k drawn \<longleftrightarrow>
     length drawn = k \<and> distinct drawn \<and> set drawn \<subseteq> set population"

definition generate_mines :: "game \<Rightarrow> int \<Rightarrow> nat list \<Rightarrow> outcome" where
  "generate_mines g exclude drawn =
     (case list_pop [0..<size g ^ 2] exclude of
        Inl e \<Rightarrow> Raised e g
      | Inr list_of_valid_squares \<Rightarrow>
          (case sample list_of_valid_squares (undiscovered_mines g) drawn of
             Inl e \<Rightarrow> Raised e g
           | Inr mines \<Rightarrow> Returned (g\<lparr>mine_squares := mine_squares g @ map Some mines\<rparr>)))"

text \<open>
  The \<open>Timed\<close> edition's \<open>first_click\<close> (it also starts the clock); the \<open>Basic\<close> edition
  has the same two lines inside \<open>activate_square\<close>.
\<close>

definition first_click :: "game \<Rightarrow> int \<Rightarrow> int \<Rightarrow> nat list \<Rightarrow> outcome" where
  "first_click g x y drawn = generate_mines g (y * int (size g) + x) drawn"

subsection \<open>Revealing squares\<close>

function activate_square ::
    "nat \<Rightarrow> edition \<Rightarrow> nat list \<Rightarrow> game \<Rightarrow> int \<Rightarrow> int \<Rightarrow> bool \<Rightarrow> outcome option"
  and activate_adjacent_squares ::
    "nat \<Rightarrow> edition \<Rightarrow> nat list \<Rightarrow> game \<Rightarrow> square \<Rightarrow> outcome option"
  and adjacent_loop ::
    "nat \<Rightarrow> edition \<Rightarrow> nat list \<Rightarrow> game \<Rightarrow> (int \<times> int) list \<Rightarrow> outcome option"
  and end_game ::
    "nat \<Rightarrow> edition \<Rightarrow> nat list \<Rightarrow> game \<Rightarrow> string \<Rightarrow> outcome option"
  and end_game_loop ::
    "nat \<Rightarrow> edition \<Rightarrow> nat list \<Rightarrow> game \<Rightarrow> (int \<times> int) list \<Rightarrow> outcome option"
  and check_win ::
    "nat \<Rightarrow> edition \<Rightarrow> nat list \<Rightarrow> game \<Rightarrow> outcome option"
where
  "activate_square 0 ed drawn g x y check_adjacent = None"
| "activate_square (Suc n) ed drawn g x y check_adjacent =
     then_run
       (if length (activated_squares g) = 0 then Some (first_click g x y drawn)
        else Some (Returned g))
       (\<lambda>g.
          let square = get_square g x y in
          if square \<in> set (marked_squares g) then Some (Returned g)
          else if square \<in> set (activated_squares g) then
            (case calculate_mines_and_flags g square of
               Inl e \<Rightarrow> Some (Raised e g)
             | Inr (mines, flags) \<Rightarrow>
                 if mines = flags then activate_adjacent_squares n ed drawn g square
                 else Some (Returned g))
          else
            let g = g\<lparr>activated_squares := activated_squares g @ [square]\<rparr> in
            if square \<in> set (mine_squares g) then
              then_run (Some (configure g square (if check_adjacent then 12 else 9)))
                (\<lambda>g. end_game n ed drawn g ''You lose'')
            else
              let g = g\<lparr>undiscovered_squares := undiscovered_squares g - 1\<rparr> in
              (case calculate_mines_and_flags g square of
                 Inl e \<Rightarrow> Some (Raised e g)
               | Inr (mines, flags) \<Rightarrow>
                   then_run (Some (configure g square mines))
                     (\<lambda>g. then_run
                        (if mines = 0 \<and> check_adjacent
                         then activate_adjacent_squares n ed drawn g square
                         else Some (Returned g))
                        (\<lambda>g. if ed = Basic \<or> check_adjacent then check_win n ed drawn g
                             else Some (Returned g)))))"
| "activate_adjacent_squares n ed drawn g square =
     (case square_coordinates g square of
        None \<Rightarrow> Some (Raised TypeError g)
      | Some (row, column) \<Rightarrow> adjacent_loop n ed drawn g (window row column))"
| "adjacent_loop n ed drawn g [] = Some (Returned g)"
| "adjacent_loop n ed drawn g ((x, y) # cs) =
     (let square = get_square g x y in
      if square \<in> set (activated_squares g) then adjacent_loop n ed drawn g cs
      else if square = None then adjacent_loop n ed drawn g cs
      else then_run (activate_square n ed drawn g x y True)
             (\<lambda>g. adjacent_loop n ed drawn g cs))"
| "end_game n ed drawn g message =
     then_run (end_game_loop n ed drawn g (all_coordinates (size g)))
       (\<lambda>g. Some (Returned (g\<lparr>ending_text := message, bound := False\<rparr>)))"
| "end_game_loop n ed drawn g [] = Some (Returned g)"
| "end_game_loop n ed drawn g ((x, y) # cs) =
     (let square = get_square g x y in
      if square \<notin> set (activated_squares g) then
        then_run (activate_square n ed drawn g x y False)
          (\<lambda>g. end_game_loop n ed drawn g cs)
      else end_game_loop n ed drawn g cs)"
| "check_win n ed drawn g =
     (case ed of
        Basic \<Rightarrow>
          if undiscovered_squares g \<le> 0 then end_game n ed drawn g ''You won''
          else Some (Returned g)
      | Timed \<Rightarrow>
          if has_won g then Some (Returned g)
          else if undiscovered_squares g \<le> 0
          then end_game n ed drawn (g\<lparr>has_won := True\<rparr>) ''You win''
          else Some (Returned g))"
  by pat_completeness auto

termination
  by (relation "inv_image (less_than <*lex*> less_than <*lex*> less_than)
        (case_sum
           (case_sum (\<lambda>(n, _). (n, 0::nat, 0::nat))
              (case_sum (\<lambda>(n, _). (n, 2, 0))
                        (\<lambda>(n, ed, drawn, g, cs). (n, 1, length cs))))
           (case_sum (\<lambda>(n, _). (n, 2, 0))
              (case_sum (\<lambda>(n, ed, drawn, g, cs). (n, 1, length cs))
                        (\<lambda>(n, _). (n, 3, 0)))))")
     auto

declare activate_square.simps(2) [simp del] activate_adjacent_squares.simps [simp del]
  end_game.simps [simp del] check_win.simps [simp del]

subsection \<open>The mouse bindings and a new game\<close>

text \<open>
  \<open>start_game\<close> binds, for every \<open>x\<close> and \<open>y\<close> below \<open>size\<close>, the left button of the
  square at \<open>(x, y)\<close> to \<open>activate_square(x, y)\<close> and the right button to
  \<open>mark_square(x, y)\<close>; \<open>end_game\<close> removes the bindings. A click therefore reaches the
  engine only inside the grid and only while the squares are bound. The engine is entered
  with room for one nested \<open>activate_square\<close> call per square and two more.
\<close>

definition depth_bound :: "game \<Rightarrow> nat" where
  "depth_bound g = size g * size g + 2"

definition left_click :: "edition \<Rightarrow> nat list \<Rightarrow> game \<Rightarrow> int \<Rightarrow> int \<Rightarrow> outcome option" where
  "left_click ed drawn g x y =
     (if bound g \<and> get_square g x y \<noteq> None
      then activate_square (depth_bound g) ed drawn g x y True
      else Some (Returned g))"

definition right_click :: "game \<Rightarrow> int \<Rightarrow> int \<Rightarrow> outcome" where
  "right_click g x y =
     (if bound g \<and> get_square g x y \<noteq> None then mark_square g x y else Returned g)"

text \<open>
  The object after \<open>__init__\<close> has run \<open>start_game\<close>, with \<open>mines\<close> the value of the
  spin box (between 0 and \<open>size ** 2 - 1\<close>).
\<close>

definition start_game :: "nat \<Rightarrow> game" where
  "start_game mines =
     \<lparr>size = 10, undiscovered_mines = mines, marked_squares = [],
      activated_squares = [], mine_squares = [], mines_label = int mines,
      undiscovered_squares = 10 ^ 2 - int mines, ending_text = [],
      images = (\<lambda>_. 10), bound = True, has_won = False\<rparr>"

section \<open>Auxiliary notions\<close>

definition grows :: "game \<Rightarrow> game \<Rightarrow> bool" where
  "grows g g' \<longleftrightarrow>
     size g' = size g \<and> set (activated_squares g) \<subseteq> set (activated_squares g') \<and>
     (distinct (activated_squares g) \<longrightarrow> distinct (activated_squares g'))"

definition win_message :: "edition \<Rightarrow> string" where
  "win_message ed = (case ed of Basic \<Rightarrow> ''You won'' | Timed \<Rightarrow> ''You win'')"

definition win_fires :: "edition \<Rightarrow> game \<Rightarrow> bool" where
  "win_fires ed g \<longleftrightarrow> undiscovered_squares g \<le> 0 \<and> (ed = Timed \<longrightarrow> \<not> has_won g)"

definition note_win :: "edition \<Rightarrow> game \<Rightarrow> game" where
  "note_win ed g = (case ed of Basic \<Rightarrow> g | Timed \<Rightarrow> g\<lparr>has_won := True\<rparr>)"

definition prepare :: "game \<Rightarrow> int \<Rightarrow> int \<Rightarrow> nat list \<Rightarrow> outcome" where
  "prepare g x y drawn =
     (if length (activated_squares g) = 0 then first_click g x y drawn else Returned g)"

definition appended :: "game \<Rightarrow> square \<Rightarrow> game" where
  "appended g sq = g\<lparr>activated_squares := activated_squares g @ [sq]\<rparr>"

definition counted :: "game \<Rightarrow> square \<Rightarrow> game" where
  "counted g sq = g\<lparr>activated_squares := activated_squares g @ [sq],
                     undiscovered_squares := undiscovered_squares g - 1\<rparr>"

definition unrevealed :: "game \<Rightarrow> nat set" where
  "unrevealed g = {i. i < size g * size g \<and> Some i \<notin> set (activated_squares g)}"

definition covers :: "nat \<Rightarrow> edition \<Rightarrow> nat list \<Rightarrow> bool" where
  "covers n ed drawn \<longleftrightarrow>
     (\<forall>g x y c. card (unrevealed g) \<le> n \<longrightarrow> get_square g x y \<noteq> None \<longrightarrow>
        get_square g x y \<notin> set (activated_squares g) \<longrightarrow>
        activate_square n ed drawn g x y c \<noteq> None)"

definition adjacent_mines :: "game \<Rightarrow> nat \<Rightarrow> nat" where
  "adjacent_mines g i =
     fst (count_around g (Some i) (window (int (i mod size g)) (int (i div size g))) (0, 0))"

definition adjacent_flags :: "game \<Rightarrow> nat \<Rightarrow> nat" where
  "adjacent_flags g i =
     snd (count_around g (Some i) (window (int (i mod size g)) (int (i div size g))) (0, 0))"

definition uncover :: "game \<Rightarrow> nat \<Rightarrow> game" where
  "uncover g i =
     g\<lparr>activated_squares := activated_squares g @ [Some i],
       undiscovered_squares := undiscovered_squares g - 1,
       images := (images g)(i := adjacent_mines g i)\<rparr>"

definition explode :: "game \<Rightarrow> nat \<Rightarrow> nat \<Rightarrow> game" where
  "explode g i img =
     g\<lparr>activated_squares := activated_squares g @ [Some i],
       images := (images g)(i := img)\<rparr>"

definition finish :: "game \<Rightarrow> string \<Rightarrow> game" where
  "finish g message = g\<lparr>ending_text := message, bound := False\<rparr>"

definition well_formed :: "game \<Rightarrow> bool" where
  "well_formed g \<longleftrightarrow>
     set (activated_squares g) \<subseteq> Some ` {..<size g * size g} \<and>
     distinct (activated_squares g) \<and>
     set (marked_squares g) \<subseteq> Some ` {..<size g * size g} \<and>
     distinct (marked_squares g) \<and>
     set (mine_squares g) \<subseteq> Some ` {..<size g * size g} \<and>
     set (activated_squares g) \<inter> set (marked_squares g) = {}"

definition hidden_free :: "game \<Rightarrow> nat \<Rightarrow> bool" where
  "hidden_free g i \<longleftrightarrow>
     i < size g * size g \<and> Some i \<notin> set (activated_squares g) \<and>
     Some i \<notin> set (marked_squares g)"

definition swept :: "game \<Rightarrow> bool" where
  "swept g \<longleftrightarrow> (\<forall>i. \<not> hidden_free g i)"

inductive step :: "bool \<Rightarrow> game \<Rightarrow> game \<Rightarrow> bool" for loud where
  uncover: "hidden_free g i \<Longrightarrow> Some i \<notin> set (mine_squares g) \<Longrightarrow>
     step loud g (uncover g i)"
| explode: "hidden_free g i \<Longrightarrow> Some i \<in> set (mine_squares g) \<Longrightarrow>
     img = 9 \<or> loud \<and> img = 12 \<Longrightarrow> step loud g (explode g i img)"
| finish: "swept g \<Longrightarrow> step loud g (finish g message)"
| note_win: "step loud g (g\<lparr>has_won := True\<rparr>)"

abbreviation steps :: "bool \<Rightarrow> game \<Rightarrow> game \<Rightarrow> bool" where
  "steps loud \<equiv> (step loud)\<^sup>*\<^sup>*"

definition same_board :: "game \<Rightarrow> game \<Rightarrow> bool" where
  "same_board g g' \<longleftrightarrow>
     size g' = size g \<and> undiscovered_mines g' = undiscovered_mines g \<and>
     marked_squares g' = marked_squares g \<and> mine_squares g' = mine_squares g \<and>
     mines_label g' = mines_label g"

definition reveal_traced :: "nat \<Rightarrow> edition \<Rightarrow> nat list \<Rightarrow> bool" where
  "reveal_traced n ed drawn \<longleftrightarrow>
     (\<forall>g x y c r i. well_formed g \<longrightarrow> activated_squares g \<noteq> [] \<longrightarrow>
        get_square g x y = Some i \<longrightarrow> activate_square n ed drawn g x y c = Some r \<longrightarrow>
        (\<exists>g'. r = Returned g' \<and>
           steps (c \<or> Some i \<in> set (activated_squares g)) g g' \<and>
           (Some i \<in> set (marked_squares g) \<or> Some i \<in> set (activated_squares g'))))"

definition population :: "game \<Rightarrow> nat \<Rightarrow> nat list" where
  "population g i = filter (\<lambda>j. j \<noteq> i) [0..<size g ^ 2]"

definition mined :: "game \<Rightarrow> nat list \<Rightarrow> game" where
  "mined g drawn = g\<lparr>mine_squares := mine_squares g @ map Some drawn\<rparr>"

text \<open>The state in which the body of \<open>activate_square\<close> runs.\<close>

definition prepared :: "game \<Rightarrow> nat list \<Rightarrow> game" where
  "prepared g drawn = (if activated_squares g = [] then mined g drawn else g)"

definition flags_ok :: "game \<Rightarrow> bool" where
  "flags_ok g \<longleftrightarrow>
     well_formed g \<and>
     mines_label g = int (undiscovered_mines g) - int (length (marked_squares g)) \<and>
     0 \<le> mines_label g"

text \<open>
  The states a game can be in: \<open>start_game\<close> with a spin box value below \<open>size ** 2\<close>,
  followed by any clicks, \<open>drawn\<close> being at each left click a list that \<open>random.sample\<close>
  can return there.
\<close>

inductive reachable :: "edition \<Rightarrow> game \<Rightarrow> bool" for ed where
  start: "mines < 10 ^ 2 \<Longrightarrow> reachable ed (start_game mines)"
| flag: "reachable ed g \<Longrightarrow> right_click g x y = Returned g' \<Longrightarrow> reachable ed g'"
| reveal: "reachable ed g \<Longrightarrow>
     \<forall>i. get_square g x y = Some i \<longrightarrow>
       is_sample (population g i) (undiscovered_mines g) drawn \<Longrightarrow>
     left_click ed drawn g x y = Some (Returned g') \<Longrightarrow> reachable ed g'"

definition safe_hidden :: "game \<Rightarrow> nat set" where
  "safe_hidden g =
     {j. j < size g * size g \<and> Some j \<notin> set (activated_squares g) \<and>
         Some j \<notin> set (mine_squares g)}"

definition uncovering :: "game \<Rightarrow> game \<Rightarrow> bool" where
  "uncovering g g' \<longleftrightarrow>
     (\<exists>i. hidden_free g i \<and> Some i \<notin> set (mine_squares g) \<and> g' = uncover g i)"

abbreviation uncovers :: "game \<Rightarrow> game \<Rightarrow> bool" where
  "uncovers \<equiv> uncovering\<^sup>*\<^sup>*"

definition in_progress :: "game \<Rightarrow> bool" where
  "in_progress g \<longleftrightarrow> ending_text g = [] \<and> bound g \<and> \<not> has_won g"

definition won :: "edition \<Rightarrow> game \<Rightarrow> bool" where
  "won ed g \<longleftrightarrow>
     ending_text g = win_message ed \<and> \<not> bound g \<and> swept g \<and>
     undiscovered_squares g \<le> 0 \<and> (ed = Timed \<longrightarrow> has_won g)"

definition cascade_post :: "edition \<Rightarrow> game \<Rightarrow> game \<Rightarrow> bool" where
  "cascade_post ed g g' \<longleftrightarrow>
     uncovers g g' \<and> (g' = g \<or> 0 < undiscovered_squares g') \<or>
     won ed g' \<and> steps False g g'"

definition cascade_ok :: "nat \<Rightarrow> edition \<Rightarrow> nat list \<Rightarrow> bool" where
  "cascade_ok n ed drawn \<longleftrightarrow>
     (\<forall>g x y i r. well_formed g \<longrightarrow> activated_squares g \<noteq> [] \<longrightarrow> in_progress g \<longrightarrow>
        get_square g x y = Some i \<longrightarrow> Some i \<notin> set (activated_squares g) \<longrightarrow>
        Some i \<notin> set (mine_squares g) \<longrightarrow>
        activate_square n ed drawn g x y True = Some r \<longrightarrow>
        (\<exists>g'. r = Returned g' \<and> cascade_post ed g g'))"

text \<open>The squares of the grid next to square \<open>i\<close>: column and row differ by at most one.\<close>

definition neighbours :: "game \<Rightarrow> nat \<Rightarrow> nat set" where
  "neighbours g i =
     {j. j < size g * size g \<and> j \<noteq> i \<and>
         \<bar>int (j mod size g) - int (i mod size g)\<bar> \<le> 1 \<and>
         \<bar>int (j div size g) - int (i div size g)\<bar> \<le> 1}"

definition blank_corner :: game where
  "blank_corner =
     \<lparr>size = 10, undiscovered_mines = 3, marked_squares = [],
      activated_squares = [Some 0], mine_squares = [Some 97, Some 98, Some 99],
      mines_label = 3, undiscovered_squares = 96, ending_text = [],
      images = (\<lambda>_. 10)(0 := 0), bound = True, has_won = False\<rparr>"

definition lost :: "game \<Rightarrow> bool" where
  "lost g \<longleftrightarrow> ending_text g = ''You lose'' \<and> \<not> bound g \<and> swept g"

definition accounted :: "game \<Rightarrow> bool" where
  "accounted g \<longleftrightarrow>
     (if activated_squares g = []
      then undiscovered_squares g = int (size g * size g) - int (undiscovered_mines g)
      else int (card (safe_hidden g)) \<le> undiscovered_squares g)"

text \<open>
  A game with two mines, on the squares 1 and 10, after a first click on \<open>(0, 0)\<close>; and
  the same game with flags on the squares 11 and 10, the first one misplaced.
\<close>

definition two_mines :: game where
  "two_mines = uncover (mined (start_game 2) [1, 10]) 0"

definition wrong_flag :: game where
  "wrong_flag = two_mines\<lparr>marked_squares := [Some 11, Some 10],
     images := (images two_mines)(11 := 11, 10 := 11), mines_label := 0\<rparr>"


text \<open>The image \<open>end_game\<close> gives a square it reveals: a mine, or the count of a safe square.\<close>

definition shown :: "game \<Rightarrow> nat \<Rightarrow> nat" where
  "shown g j = (if Some j \<in> set (mine_squares g) then 9 else adjacent_mines g j)"

text \<open>
  The run from \<open>g\<close> to \<open>g'\<close> left no cascade unfinished: around every square it revealed
  that has no mine next to it, every square is revealed or flagged.
\<close>

definition closed_over :: "game \<Rightarrow> game \<Rightarrow> bool" where
  "closed_over g g' \<longleftrightarrow>
     (\<forall>j n. Some j \<in> set (activated_squares g') \<longrightarrow> Some j \<notin> set (activated_squares g) \<longrightarrow>
        adjacent_mines g j = 0 \<longrightarrow> n \<in> neighbours g j \<longrightarrow>
        Some n \<in> set (marked_squares g) \<or> Some n \<in> set (activated_squares g'))"

definition reveal_closed :: "nat \<Rightarrow> edition \<Rightarrow> nat list \<Rightarrow> bool" where
  "reveal_closed n ed drawn \<longleftrightarrow>
     (\<forall>g x y i r. well_formed g \<longrightarrow> activated_squares g \<noteq> [] \<longrightarrow>
        get_square g x y = Some i \<longrightarrow> activate_square n ed drawn g x y True = Some r \<longrightarrow>
        (\<exists>g'. r = Returned g' \<and> closed_over g g'))"

text \<open>
  A set of squares that a cascade cannot leave: with a square that has no mine next to it,
  it holds the hidden neighbours without a flag.
\<close>

definition spreads :: "game \<Rightarrow> nat set \<Rightarrow> bool" where
  "spreads g T \<longleftrightarrow>
     (\<forall>j \<in> T. adjacent_mines g j = 0 \<longrightarrow>
        (\<forall>n \<in> neighbours g j. hidden_free g n \<longrightarrow> n \<in> T))"

definition within :: "game \<Rightarrow> game \<Rightarrow> nat set \<Rightarrow> bool" where
  "within g g' T \<longleftrightarrow>
     (\<forall>j. Some j \<in> set (activated_squares g') \<longrightarrow>
        Some j \<in> set (activated_squares g) \<or> j \<in> T)"

definition reveal_within :: "nat \<Rightarrow> edition \<Rightarrow> nat list \<Rightarrow> bool" where
  "reveal_within n ed drawn \<longleftrightarrow>
     (\<forall>g x y i r T. well_formed g \<longrightarrow> activated_squares g \<noteq> [] \<longrightarrow> in_progress g \<longrightarrow>
        get_square g x y = Some i \<longrightarrow> hidden_free g i \<longrightarrow> Some i \<notin> set (mine_squares g) \<longrightarrow>
        i \<in> T \<longrightarrow> spreads g T \<longrightarrow> activate_square n ed drawn g x y True = Some r \<longrightarrow>
        (\<exists>g'. r = Returned g' \<and> (in_progress g' \<longrightarrow> within g g' T)))"

text \<open>
  The squares a cascade started on square \<open>i\<close> reaches in the game \<open>g\<close>: \<open>i\<close> itself and,
  around every reached square that has no mine next to it, the hidden squares without a
  flag. Squares revealed earlier are not passed through.
\<close>

inductive_set region :: "game \<Rightarrow> nat \<Rightarrow> nat set" for g :: game and i :: nat where
  start: "i \<in> region g i"
| spread: "j \<in> region g i \<Longrightarrow> adjacent_mines g j = 0 \<Longrightarrow> n \<in> neighbours g j \<Longrightarrow>
     hidden_free g n \<Longrightarrow> n \<in> region g i"

text \<open>The squares revealed between two states.\<close>

definition revealed_by :: "game \<Rightarrow> game \<Rightarrow> nat set" where
  "revealed_by g g' =
     {j. Some j \<in> set (activated_squares g') \<and> Some j \<notin> set (activated_squares g)}"

text \<open>
  A new game with 96 mines in which the first click, on \<open>(0, 0)\<close>, draws every square but
  0, 1, 10 and 11; and that game with the mines placed.
\<close>

definition pocket_mines :: "nat list" where
  "pocket_mines = [2..<10] @ [12..<100]"

definition pocket :: game where
  "pocket = mined (start_game 96) pocket_mines"

section \<open>Basic facts\<close>

lemma then_run_Some:
  "then_run m k = Some r \<longleftrightarrow>
     (\<exists>e g. m = Some (Raised e g) \<and> r = Raised e g) \<or>
     (\<exists>g. m = Some (Returned g) \<and> k g = Some r)"
proof (cases m)
  case None
  then show ?thesis by simp
next
  case (Some a)
  then show ?thesis by (cases a) auto
qed

lemma grows_refl: "grows g g"
  by (simp add: grows_def)

lemma grows_trans: "grows g g' \<Longrightarrow> grows g' g'' \<Longrightarrow> grows g g''"
  by (auto simp: grows_def)

lemma configure_grows: "grows g (state_of (configure g square img))"
  by (cases square) (simp_all add: configure_def grows_def)

lemma configure_cases:
  "configure g square img = Raised e g' \<Longrightarrow> square = None \<and> e = AttributeError \<and> g' = g"
  "configure g square img = Returned g' \<Longrightarrow>
     (\<exists>i. square = Some i \<and> g' = g\<lparr>images := (images g)(i := img)\<rparr>)"
  by (cases square; simp add: configure_def; fail)+

lemma first_click_grows: "grows g (state_of (first_click g x y drawn))"
  by (simp add: first_click_def generate_mines_def grows_def split: sum.splits)

lemma adjacent_loop_grows:
  assumes rec: "\<forall>g x y c r. activate_square n ed drawn g x y c = Some r \<longrightarrow> grows g (state_of r)"
  shows "adjacent_loop n ed drawn g cs = Some r \<Longrightarrow> grows g (state_of r)"
proof (induction cs arbitrary: g)
  case Nil
  then show ?case by (auto simp: grows_refl)
next
  case (Cons c cs)
  obtain x y where c: "c = (x, y)" by (cases c)
  show ?case
    using Cons.prems unfolding c
    by (auto simp: Let_def then_run_Some split: if_splits
             dest!: rec [rule_format] Cons.IH intro: grows_trans)
qed

lemma end_game_loop_grows:
  assumes rec: "\<forall>g x y c r. activate_square n ed drawn g x y c = Some r \<longrightarrow> grows g (state_of r)"
  shows "end_game_loop n ed drawn g cs = Some r \<Longrightarrow> grows g (state_of r)"
proof (induction cs arbitrary: g)
  case Nil
  then show ?case by (auto simp: grows_refl)
next
  case (Cons c cs)
  obtain x y where c: "c = (x, y)" by (cases c)
  show ?case
    using Cons.prems unfolding c
    by (auto simp: Let_def then_run_Some split: if_splits
             dest!: rec [rule_format] Cons.IH intro: grows_trans)
qed

lemma activate_adjacent_squares_grows:
  assumes rec: "\<forall>g x y c r. activate_square n ed drawn g x y c = Some r \<longrightarrow> grows g (state_of r)"
    and run: "activate_adjacent_squares n ed drawn g square = Some r"
  shows "grows g (state_of r)"
proof (cases "square_coordinates g square")
  case None
  with run show ?thesis by (auto simp: grows_refl activate_adjacent_squares.simps)
next
  case (Some p)
  obtain row column where "p = (row, column)" by (cases p)
  with Some run have "adjacent_loop n ed drawn g (window row column) = Some r"
    by (simp add: activate_adjacent_squares.simps)
  from adjacent_loop_grows [OF rec this] show ?thesis .
qed

lemma end_game_Some:
  "end_game n ed drawn g message = Some r \<longleftrightarrow>
     (\<exists>e g'. end_game_loop n ed drawn g (all_coordinates (size g)) = Some (Raised e g') \<and>
        r = Raised e g') \<or>
     (\<exists>g'. end_game_loop n ed drawn g (all_coordinates (size g)) = Some (Returned g') \<and>
        r = Returned (g'\<lparr>ending_text := message, bound := False\<rparr>))"
  by (auto simp: end_game.simps then_run_Some)

lemma end_game_grows:
  assumes rec: "\<forall>g x y c r. activate_square n ed drawn g x y c = Some r \<longrightarrow> grows g (state_of r)"
    and run: "end_game n ed drawn g message = Some r"
  shows "grows g (state_of r)"
proof -
  from run obtain r' where loop: "end_game_loop n ed drawn g (all_coordinates (size g)) = Some r'"
    and r: "r = r' \<or> (\<exists>g'. r' = Returned g' \<and> r = Returned (g'\<lparr>ending_text := message, bound := False\<rparr>))"
    by (auto simp: end_game_Some)
  from end_game_loop_grows [OF rec loop] r show ?thesis
    by (auto simp: grows_def)
qed

lemma check_win_eq:
  "check_win n ed drawn g =
     (if win_fires ed g then end_game n ed drawn (note_win ed g) (win_message ed)
      else Some (Returned g))"
  by (cases ed) (simp_all add: check_win.simps win_fires_def note_win_def win_message_def)

lemma note_win_grows: "grows g (note_win ed g)"
  by (cases ed) (simp_all add: note_win_def grows_def)

lemma check_win_grows:
  assumes rec: "\<forall>g x y c r. activate_square n ed drawn g x y c = Some r \<longrightarrow> grows g (state_of r)"
    and run: "check_win n ed drawn g = Some r"
  shows "grows g (state_of r)"
proof (cases "win_fires ed g")
  case True
  with run have "end_game n ed drawn (note_win ed g) (win_message ed) = Some r"
    by (simp add: check_win_eq)
  from end_game_grows [OF rec this] note_win_grows show ?thesis
    by (blast intro: grows_trans)
next
  case False
  with run show ?thesis by (auto simp: check_win_eq grows_refl)
qed

lemma activate_square_Suc_cases [consumes 1, case_names prepare_raised flagged chord_raised chord
    chord_idle mine_raised mine safe_raised safe_configure_raised safe_adjacent_raised safe]:
  assumes "activate_square (Suc n) ed drawn g x y c = Some r"
  obtains
    e h where "prepare g x y drawn = Raised e h" "r = Raised e h"
  | h where "prepare g x y drawn = Returned h" "get_square h x y \<in> set (marked_squares h)"
      "r = Returned h"
  | h e where "prepare g x y drawn = Returned h" "get_square h x y \<notin> set (marked_squares h)"
      "get_square h x y \<in> set (activated_squares h)"
      "calculate_mines_and_flags h (get_square h x y) = Inl e" "r = Raised e h"
  | h mines where "prepare g x y drawn = Returned h"
      "get_square h x y \<notin> set (marked_squares h)"
      "get_square h x y \<in> set (activated_squares h)"
      "calculate_mines_and_flags h (get_square h x y) = Inr (mines, mines)"
      "activate_adjacent_squares n ed drawn h (get_square h x y) = Some r"
  | h mines flags where "prepare g x y drawn = Returned h"
      "get_square h x y \<notin> set (marked_squares h)"
      "get_square h x y \<in> set (activated_squares h)"
      "calculate_mines_and_flags h (get_square h x y) = Inr (mines, flags)" "mines \<noteq> flags"
      "r = Returned h"
  | h e h' where "prepare g x y drawn = Returned h"
      "get_square h x y \<notin> set (marked_squares h)"
      "get_square h x y \<notin> set (activated_squares h)"
      "get_square h x y \<in> set (mine_squares h)"
      "configure (appended h (get_square h x y)) (get_square h x y) (if c then 12 else 9)
         = Raised e h'" "r = Raised e h'"
  | h h' where "prepare g x y drawn = Returned h"
      "get_square h x y \<notin> set (marked_squares h)"
      "get_square h x y \<notin> set (activated_squares h)"
      "get_square h x y \<in> set (mine_squares h)"
      "configure (appended h (get_square h x y)) (get_square h x y) (if c then 12 else 9)
         = Returned h'"
      "end_game n ed drawn h' ''You lose'' = Some r"
  | h e where "prepare g x y drawn = Returned h"
      "get_square h x y \<notin> set (marked_squares h)"
      "get_square h x y \<notin> set (activated_squares h)"
      "get_square h x y \<notin> set (mine_squares h)"
      "calculate_mines_and_flags (counted h (get_square h x y)) (get_square h x y) = Inl e"
      "r = Raised e (counted h (get_square h x y))"
  | h mines flags e h' where "prepare g x y drawn = Returned h"
      "get_square h x y \<notin> set (marked_squares h)"
      "get_square h x y \<notin> set (activated_squares h)"
      "get_square h x y \<notin> set (mine_squares h)"
      "calculate_mines_and_flags (counted h (get_square h x y)) (get_square h x y)
         = Inr (mines, flags)"
      "configure (counted h (get_square h x y)) (get_square h x y) mines = Raised e h'"
      "r = Raised e h'"
  | h mines flags h' e h'' where "prepare g x y drawn = Returned h"
      "get_square h x y \<notin> set (marked_squares h)"
      "get_square h x y \<notin> set (activated_squares h)"
      "get_square h x y \<notin> set (mine_squares h)"
      "calculate_mines_and_flags (counted h (get_square h x y)) (get_square h x y)
         = Inr (mines, flags)"
      "configure (counted h (get_square h x y)) (get_square h x y) mines = Returned h'"
      "mines = 0" "c"
      "activate_adjacent_squares n ed drawn h' (get_square h x y) = Some (Raised e h'')"
      "r = Raised e h''"
  | h mines flags h' h'' where "prepare g x y drawn = Returned h"
      "get_square h x y \<notin> set (marked_squares h)"
      "get_square h x y \<notin> set (activated_squares h)"
      "get_square h x y \<notin> set (mine_squares h)"
      "calculate_mines_and_flags (counted h (get_square h x y)) (get_square h x y)
         = Inr (mines, flags)"
      "configure (counted h (get_square h x y)) (get_square h x y) mines = Returned h'"
      "(if mines = 0 \<and> c then activate_adjacent_squares n ed drawn h' (get_square h x y)
        else Some (Returned h')) = Some (Returned h'')"
      "(if ed = Basic \<or> c then check_win n ed drawn h'' else Some (Returned h'')) = Some r"
proof (cases "prepare g x y drawn")
  case (Raised e h)
  with assms have "r = Raised e h"
    by (simp add: activate_square.simps(2) prepare_def split: if_splits)
  with Raised that(1) show ?thesis by blast
next
  case (Returned h)
  let ?sq = "get_square h x y"
  from assms Returned
  have run: "(if ?sq \<in> set (marked_squares h) then Some (Returned h)
          else if ?sq \<in> set (activated_squares h) then
            (case calculate_mines_and_flags h ?sq of
               Inl e \<Rightarrow> Some (Raised e h)
             | Inr (mines, flags) \<Rightarrow>
                 if mines = flags then activate_adjacent_squares n ed drawn h ?sq
                 else Some (Returned h))
          else
            if ?sq \<in> set (mine_squares h) then
              then_run (Some (configure (appended h ?sq) ?sq (if c then 12 else 9)))
                (\<lambda>g. end_game n ed drawn g ''You lose'')
            else
              (case calculate_mines_and_flags (counted h ?sq) ?sq of
                 Inl e \<Rightarrow> Some (Raised e (counted h ?sq))
               | Inr (mines, flags) \<Rightarrow>
                   then_run (Some (configure (counted h ?sq) ?sq mines))
                     (\<lambda>g. then_run
                        (if mines = 0 \<and> c
                         then activate_adjacent_squares n ed drawn g ?sq
                         else Some (Returned g))
                        (\<lambda>g. if ed = Basic \<or> c then check_win n ed drawn g
                             else Some (Returned g))))) = Some r"
    unfolding appended_def counted_def prepare_def
    by (simp add: activate_square.simps(2) Let_def split: if_splits)
  show ?thesis
  proof (cases "?sq \<in> set (marked_squares h)")
    case True
    with run have "r = Returned h" by simp
    with Returned True show ?thesis by (rule that(2))
  next
    case unmarked: False
    show ?thesis
    proof (cases "?sq \<in> set (activated_squares h)")
      case True
      show ?thesis
      proof (cases "calculate_mines_and_flags h ?sq")
        case (Inl e)
        with run unmarked True have "r = Raised e h" by simp
        with Returned unmarked True Inl show ?thesis by (rule that(3))
      next
        case (Inr p)
        obtain mines flags where p: "p = (mines, flags)" by (cases p)
        show ?thesis
        proof (cases "mines = flags")
          case same: True
          with run unmarked True Inr p
          have "activate_adjacent_squares n ed drawn h ?sq = Some r" by simp
          moreover from Inr p same
          have "calculate_mines_and_flags h ?sq = Inr (mines, mines)" by simp
          ultimately show ?thesis using Returned unmarked True that(4) by blast
        next
          case False
          with run unmarked True Inr p have "r = Returned h" by simp
          with Returned unmarked True Inr p False that(5) show ?thesis by blast
        qed
      qed
    next
      case hidden: False
      show ?thesis
      proof (cases "?sq \<in> set (mine_squares h)")
        case True
        show ?thesis
        proof (cases "configure (appended h ?sq) ?sq (if c then 12 else 9)")
          case (Returned h')
          with run unmarked hidden True
          have "end_game n ed drawn h' ''You lose'' = Some r" by simp
          with \<open>prepare g x y drawn = Returned h\<close> unmarked hidden True Returned
          show ?thesis by (rule that(7))
        next
          case (Raised e h')
          with run unmarked hidden True have "r = Raised e h'" by simp
          with \<open>prepare g x y drawn = Returned h\<close> unmarked hidden True Raised
          show ?thesis by (rule that(6))
        qed
      next
        case safe: False
        show ?thesis
        proof (cases "calculate_mines_and_flags (counted h ?sq) ?sq")
          case (Inl e)
          with run unmarked hidden safe have "r = Raised e (counted h ?sq)" by simp
          with Returned unmarked hidden safe Inl show ?thesis by (rule that(8))
        next
          case (Inr p)
          obtain mines flags where p: "p = (mines, flags)" by (cases p)
          note calc = Inr [unfolded p]
          show ?thesis
          proof (cases "configure (counted h ?sq) ?sq mines")
            case (Raised e h')
            with run unmarked hidden safe calc have "r = Raised e h'" by simp
            with \<open>prepare g x y drawn = Returned h\<close> unmarked hidden safe calc Raised
            show ?thesis by (rule that(9))
          next
            case conf: (Returned h')
            let ?adj = "if mines = 0 \<and> c then activate_adjacent_squares n ed drawn h' ?sq
               else Some (Returned h')"
            from run unmarked hidden safe calc conf
            have rest: "then_run ?adj
               (\<lambda>g. if ed = Basic \<or> c then check_win n ed drawn g else Some (Returned g))
               = Some r" by simp
            then consider
              (a) e h'' where "?adj = Some (Raised e h'')" "r = Raised e h''"
            | (b) h'' where "?adj = Some (Returned h'')"
                "(if ed = Basic \<or> c then check_win n ed drawn h'' else Some (Returned h''))
                  = Some r"
              unfolding then_run_Some by blast
            then show ?thesis
            proof cases
              case a
              from a(1) have "mines = 0" "c"
                "activate_adjacent_squares n ed drawn h' ?sq = Some (Raised e h'')"
                by (simp_all split: if_splits)
              with \<open>prepare g x y drawn = Returned h\<close> unmarked hidden safe calc conf
              show ?thesis using a(2) by (rule that(10))
            next
              case b
              with \<open>prepare g x y drawn = Returned h\<close> unmarked hidden safe calc conf
              show ?thesis by (rule that(11))
            qed
          qed
        qed
      qed
    qed
  qed
qed

lemma appended_grows: "sq \<notin> set (activated_squares h) \<Longrightarrow> grows h (appended h sq)"
  by (auto simp: grows_def appended_def)

lemma counted_grows: "sq \<notin> set (activated_squares h) \<Longrightarrow> grows h (counted h sq)"
  by (auto simp: grows_def counted_def)

lemma configure_grows': "configure h sq img = Returned h' \<Longrightarrow> grows h h'"
  "configure h sq img = Raised e h' \<Longrightarrow> grows h h'"
  using configure_grows [of h sq img] by simp_all

lemma prepare_grows: "prepare g x y drawn = Returned h \<Longrightarrow> grows g h"
  "prepare g x y drawn = Raised e h \<Longrightarrow> grows g h"
  using first_click_grows [of g x y drawn]
  by (auto simp: prepare_def grows_refl split: if_splits)

lemma activate_square_grows:
  "activate_square n ed drawn g x y c = Some r \<Longrightarrow> grows g (state_of r)"
proof (induction n arbitrary: g x y c r)
  case 0
  then show ?case by simp
next
  case (Suc n)
  have rec: "\<forall>g x y c r. activate_square n ed drawn g x y c = Some r \<longrightarrow> grows g (state_of r)"
    using Suc.IH by blast
  note adj = activate_adjacent_squares_grows [OF rec]
   and eg = end_game_grows [OF rec]
   and cw = check_win_grows [OF rec]
  from Suc.prems show ?case
  proof (cases rule: activate_square_Suc_cases)
    case (prepare_raised e h)
    then show ?thesis using prepare_grows(2) by simp
  next
    case (flagged h)
    then show ?thesis using prepare_grows(1) by simp
  next
    case (chord_raised h e)
    then show ?thesis using prepare_grows(1) by simp
  next
    case (chord h mines)
    from adj [OF chord(5)] prepare_grows(1) [OF chord(1)] show ?thesis
      by (rule grows_trans [rotated])
  next
    case (chord_idle h mines flags)
    then show ?thesis using prepare_grows(1) by simp
  next
    case (mine_raised h e h')
    from prepare_grows(1) [OF mine_raised(1)] appended_grows [OF mine_raised(3)]
      configure_grows'(2) [OF mine_raised(5)] mine_raised(6)
    show ?thesis by (auto intro: grows_trans)
  next
    case (mine h h')
    from prepare_grows(1) [OF mine(1)] appended_grows [OF mine(3)]
      configure_grows'(1) [OF mine(5)] eg [OF mine(6)]
    show ?thesis by (blast intro: grows_trans)
  next
    case (safe_raised h e)
    from prepare_grows(1) [OF safe_raised(1)] counted_grows [OF safe_raised(3)] safe_raised(6)
    show ?thesis by (auto intro: grows_trans)
  next
    case (safe_configure_raised h mines flags e h')
    from prepare_grows(1) [OF this(1)] counted_grows [OF this(3)]
      configure_grows'(2) [OF this(6)] this(7)
    show ?thesis by (auto intro: grows_trans)
  next
    case (safe_adjacent_raised h mines flags h' e h'')
    from prepare_grows(1) [OF this(1)] counted_grows [OF this(3)]
      configure_grows'(1) [OF this(6)] adj [OF this(9)] this(10)
    show ?thesis by (auto intro: grows_trans)
  next
    case (safe h mines flags h' h'')
    have 1: "grows h' h''"
      using safe(7) by (auto simp: grows_refl split: if_splits dest: adj)
    have 2: "grows h'' (state_of r)"
    proof (cases "ed = Basic \<or> c")
      case True
      with safe(8) have "check_win n ed drawn h'' = Some r" by simp
      then show ?thesis by (rule cw)
    next
      case False
      with safe(8) show ?thesis by (auto simp: grows_refl)
    qed
    from prepare_grows(1) [OF safe(1)] counted_grows [OF safe(3)]
      configure_grows'(1) [OF safe(6)] 1 2
    show ?thesis by (blast intro: grows_trans)
  qed
qed

lemma finite_unrevealed: "finite (unrevealed g)"
  by (simp add: unrevealed_def)

lemma grows_unrevealed: "grows g g' \<Longrightarrow> card (unrevealed g') \<le> card (unrevealed g)"
  by (rule card_mono [OF finite_unrevealed]) (auto simp: grows_def unrevealed_def)

lemma get_square_Some:
  "get_square g x y = Some i \<longleftrightarrow>
     0 \<le> x \<and> x < int (size g) \<and> 0 \<le> y \<and> y < int (size g) \<and> i = nat (y * int (size g) + x)"
  by (auto simp: get_square_def)

lemma get_square_less:
  assumes "get_square g x y = Some i"
  shows "i < size g * size g"
proof -
  from assms have x: "0 \<le> x" "x < int (size g)" and y: "0 \<le> y" "y < int (size g)"
    and i: "i = nat (y * int (size g) + x)"
    by (simp_all add: get_square_Some)
  from y have "y + 1 \<le> int (size g)" by simp
  then have "(y + 1) * int (size g) \<le> int (size g) * int (size g)"
    by (rule mult_right_mono) simp
  with x have "y * int (size g) + x < int (size g) * int (size g)"
    by (simp add: algebra_simps)
  with i x y show ?thesis
    by (metis nat_less_iff of_nat_mult add_nonneg_nonneg mult_nonneg_nonneg of_nat_0_le_iff)
qed

lemma appended_unrevealed:
  assumes "sq = Some i" "i < size h * size h" "sq \<notin> set (activated_squares h)"
    "activated_squares h' = activated_squares h @ [sq]" "size h' = size h"
  shows "card (unrevealed h') < card (unrevealed h)"
proof (rule psubset_card_mono [OF finite_unrevealed])
  from assms show "unrevealed h' \<subset> unrevealed h"
    by (auto simp: unrevealed_def)
qed

lemma then_run_None:
  "then_run m k = None \<longleftrightarrow> m = None \<or> (\<exists>g. m = Some (Returned g) \<and> k g = None)"
proof (cases m)
  case None
  then show ?thesis by simp
next
  case (Some a)
  then show ?thesis by (cases a) auto
qed

lemma adjacent_loop_total:
  assumes rec: "covers n ed drawn"
  shows "card (unrevealed g) \<le> n \<Longrightarrow> adjacent_loop n ed drawn g cs \<noteq> None"
proof (induction cs arbitrary: g)
  case Nil
  then show ?case by simp
next
  case (Cons p cs)
  obtain x y where p: "p = (x, y)" by (cases p)
  show ?case
  proof (cases "get_square g x y \<in> set (activated_squares g) \<or> get_square g x y = None")
    case True
    with Cons show ?thesis by (auto simp: p Let_def)
  next
    case False
    then have sq: "get_square g x y \<notin> set (activated_squares g)" "get_square g x y \<noteq> None"
      by simp_all
    with rec Cons.prems obtain r where r: "activate_square n ed drawn g x y True = Some r"
      unfolding covers_def by blast
    show ?thesis
    proof (cases r)
      case (Raised e g')
      with r sq show ?thesis by (simp add: p Let_def del: not_None_eq)
    next
      case (Returned g')
      with r have "grows g g'" using activate_square_grows by fastforce
      with Cons.prems have "card (unrevealed g') \<le> n"
        using grows_unrevealed by fastforce
      from Cons.IH [OF this] r Returned sq show ?thesis
        by (simp add: p Let_def del: not_None_eq)
    qed
  qed
qed

lemma end_game_loop_total:
  assumes rec: "covers n ed drawn"
  shows "card (unrevealed g) \<le> n \<Longrightarrow> \<forall>(x, y) \<in> set cs. get_square g x y \<noteq> None \<Longrightarrow>
    end_game_loop n ed drawn g cs \<noteq> None"
proof (induction cs arbitrary: g)
  case Nil
  then show ?case by simp
next
  case (Cons p cs)
  obtain x y where p: "p = (x, y)" by (cases p)
  show ?case
  proof (cases "get_square g x y \<in> set (activated_squares g)")
    case True
    with Cons show ?thesis by (auto simp: p Let_def)
  next
    case False
    with rec Cons.prems obtain r where r: "activate_square n ed drawn g x y False = Some r"
      unfolding covers_def p by fastforce
    show ?thesis
    proof (cases r)
      case (Raised e g')
      with r False show ?thesis by (simp add: p Let_def del: not_None_eq)
    next
      case (Returned g')
      with r have g': "grows g g'" using activate_square_grows by fastforce
      with Cons.prems have "card (unrevealed g') \<le> n"
        using grows_unrevealed by fastforce
      moreover from g' Cons.prems(2) have "\<forall>(x, y) \<in> set cs. get_square g' x y \<noteq> None"
        by (auto simp: grows_def get_square_def)
      ultimately have "end_game_loop n ed drawn g' cs \<noteq> None" by (rule Cons.IH)
      with r Returned False show ?thesis by (simp add: p Let_def del: not_None_eq)
    qed
  qed
qed

lemma all_coordinates_in_range:
  "(x, y) \<in> set (all_coordinates (size g)) \<Longrightarrow> get_square g x y \<noteq> None"
  by (auto simp: all_coordinates_def get_square_def)

lemma end_game_total:
  assumes rec: "covers n ed drawn" and "card (unrevealed g) \<le> n"
  shows "end_game n ed drawn g message \<noteq> None"
proof -
  have "end_game_loop n ed drawn g (all_coordinates (size g)) \<noteq> None"
    using assms(2) all_coordinates_in_range by (intro end_game_loop_total [OF rec]) auto
  then show ?thesis by (simp add: end_game.simps then_run_None del: not_None_eq)
qed

lemma check_win_total:
  assumes rec: "covers n ed drawn" and "card (unrevealed g) \<le> n"
  shows "check_win n ed drawn g \<noteq> None"
proof -
  have "unrevealed (note_win ed g) = unrevealed g"
    by (cases ed) (simp_all add: note_win_def unrevealed_def)
  with assms(2) have "end_game n ed drawn (note_win ed g) (win_message ed) \<noteq> None"
    by (intro end_game_total [OF rec]) simp
  then show ?thesis
    by (simp add: check_win_eq del: not_None_eq)
qed

lemma activate_adjacent_squares_total:
  assumes rec: "covers n ed drawn" and "card (unrevealed g) \<le> n"
  shows "activate_adjacent_squares n ed drawn g square \<noteq> None"
  using adjacent_loop_total [OF assms]
  by (simp add: activate_adjacent_squares.simps del: not_None_eq split: option.splits)

lemma activate_square_Suc_Raised:
  "prepare g x y drawn = Raised e h \<Longrightarrow>
     activate_square (Suc n) ed drawn g x y c = Some (Raised e h)"
  by (simp add: activate_square.simps(2) prepare_def split: if_splits)

lemma activate_square_Suc_Returned:
  assumes "prepare g x y drawn = Returned h"
  shows "activate_square (Suc n) ed drawn g x y c =
     (if get_square h x y \<in> set (marked_squares h) then Some (Returned h)
      else if get_square h x y \<in> set (activated_squares h) then
        (case calculate_mines_and_flags h (get_square h x y) of
           Inl e \<Rightarrow> Some (Raised e h)
         | Inr (mines, flags) \<Rightarrow>
             if mines = flags then activate_adjacent_squares n ed drawn h (get_square h x y)
             else Some (Returned h))
      else if get_square h x y \<in> set (mine_squares h) then
        then_run (Some (configure (appended h (get_square h x y)) (get_square h x y)
                          (if c then 12 else 9)))
          (\<lambda>g. end_game n ed drawn g ''You lose'')
      else
        (case calculate_mines_and_flags (counted h (get_square h x y)) (get_square h x y) of
           Inl e \<Rightarrow> Some (Raised e (counted h (get_square h x y)))
         | Inr (mines, flags) \<Rightarrow>
             then_run (Some (configure (counted h (get_square h x y)) (get_square h x y) mines))
               (\<lambda>g. then_run
                  (if mines = 0 \<and> c
                   then activate_adjacent_squares n ed drawn g (get_square h x y)
                   else Some (Returned g))
                  (\<lambda>g. if ed = Basic \<or> c then check_win n ed drawn g
                       else Some (Returned g)))))"
proof -
  have "(if length (activated_squares g) = 0 then Some (first_click g x y drawn)
         else Some (Returned g)) = Some (Returned h)"
    using assms by (auto simp: prepare_def split: if_splits)
  then show ?thesis
    unfolding activate_square.simps(2) Let_def
    by (simp add: appended_def counted_def cong: if_cong sum.case_cong)
qed

lemma prepare_Returned_same:
  assumes "prepare g x y drawn = Returned h"
  shows "size h = size g" "activated_squares h = activated_squares g"
    "marked_squares h = marked_squares g"
  using assms
  by (auto simp: prepare_def first_click_def generate_mines_def split: if_splits sum.splits)

lemma activate_square_Suc_total:
  assumes adj: "\<And>h sq. card (unrevealed h) \<le> m \<Longrightarrow>
        activate_adjacent_squares n ed drawn h sq \<noteq> None"
    and eg: "\<And>h msg. card (unrevealed h) \<le> m \<Longrightarrow> end_game n ed drawn h msg \<noteq> None"
    and cw: "\<And>h. card (unrevealed h) \<le> m \<Longrightarrow> check_win n ed drawn h \<noteq> None"
    and adj_grows: "\<And>h sq h'. activate_adjacent_squares n ed drawn h sq = Some (Returned h') \<Longrightarrow>
        grows h h'"
    and card: "card (unrevealed g) \<le> Suc m"
    and chord: "get_square g x y \<in> set (activated_squares g) \<Longrightarrow> card (unrevealed g) \<le> m"
  shows "activate_square (Suc n) ed drawn g x y c \<noteq> None"
proof (cases "prepare g x y drawn")
  case (Raised e h)
  then show ?thesis by (simp add: activate_square_Suc_Raised)
next
  case (Returned h)
  note same = prepare_Returned_same [OF Returned]
  let ?sq = "get_square h x y"
  have sq: "?sq = get_square g x y" by (simp add: get_square_def same)
  have unr: "unrevealed h = unrevealed g" by (simp add: unrevealed_def same)
  note eq = activate_square_Suc_Returned [OF Returned, of n ed c]
  show ?thesis
  proof (cases "?sq \<in> set (marked_squares h)")
    case True
    then show ?thesis by (simp add: eq)
  next
    case unmarked: False
    show ?thesis
    proof (cases "?sq \<in> set (activated_squares h)")
      case True
      with chord sq same unr have "card (unrevealed h) \<le> m" by simp
      from adj [OF this] unmarked True show ?thesis
        by (simp add: eq del: not_None_eq split: sum.splits)
    next
      case hidden: False
      show ?thesis
      proof (cases ?sq)
        case None
        have "calculate_mines_and_flags (counted h None) None = Inl TypeError"
          by (simp add: calculate_mines_and_flags_def square_coordinates_def)
        with None unmarked hidden show ?thesis
          by (simp add: eq configure_def)
      next
        case (Some i)
        then have i: "i < size h * size h" by (rule get_square_less)
        have small: "card (unrevealed h') \<le> m"
          if "activated_squares h' = activated_squares h @ [?sq]" "size h' = size h" for h'
          using appended_unrevealed [OF Some i hidden that] card unr by simp
        show ?thesis
        proof (cases "?sq \<in> set (mine_squares h)")
          case True
          have "card (unrevealed (appended h ?sq\<lparr>images := f\<rparr>)) \<le> m" for f
            by (rule small) (simp_all add: appended_def)
          from eg [OF this] unmarked hidden True Some show ?thesis
            by (simp add: eq configure_def del: not_None_eq)
        next
          case safe: False
          show ?thesis
          proof (cases "calculate_mines_and_flags (counted h ?sq) ?sq")
            case (Inl e)
            with unmarked hidden safe show ?thesis by (simp add: eq)
          next
            case (Inr p)
            obtain mines flags where p: "p = (mines, flags)" by (cases p)
            define h' where "h' = counted h ?sq\<lparr>images := (images (counted h ?sq))(i := mines)\<rparr>"
            have conf: "configure (counted h ?sq) ?sq mines = Returned h'"
              by (simp add: configure_def Some h'_def)
            have h': "card (unrevealed h') \<le> m"
              by (rule small) (simp_all add: h'_def counted_def)
            let ?adj = "if mines = 0 \<and> c then activate_adjacent_squares n ed drawn h' ?sq
               else Some (Returned h')"
            have "?adj \<noteq> None" using adj [OF h'] by simp
            then obtain r where r: "?adj = Some r" by blast
            have "then_run ?adj (\<lambda>g. if ed = Basic \<or> c then check_win n ed drawn g
                else Some (Returned g)) \<noteq> None"
            proof (cases r)
              case (Raised e h'')
              with r show ?thesis by simp
            next
              case (Returned h'')
              with r have "grows h' h''"
                by (auto simp: grows_refl split: if_splits dest: adj_grows)
              with h' have "card (unrevealed h'') \<le> m"
                using grows_unrevealed by fastforce
              from cw [OF this] r Returned show ?thesis
                by (simp del: not_None_eq)
            qed
            with unmarked hidden safe Inr p conf show ?thesis
              by (simp add: eq del: not_None_eq)
          qed
        qed
      qed
    qed
  qed
qed

lemma covers_all: "covers n ed drawn"
proof (induction n)
  case 0
  show ?case
    unfolding covers_def
  proof (intro allI impI)
    fix g x y c
    assume "card (unrevealed g) \<le> 0" and sq: "get_square g x y \<noteq> None"
      "get_square g x y \<notin> set (activated_squares g)"
    then have "unrevealed g = {}" using finite_unrevealed by simp
    moreover from sq obtain i where "get_square g x y = Some i" by blast
    with sq(2) have "i \<in> unrevealed g"
      by (simp add: unrevealed_def get_square_less)
    ultimately show "activate_square 0 ed drawn g x y c \<noteq> None" by simp
  qed
next
  case (Suc n)
  show ?case
    unfolding covers_def
  proof (intro allI impI)
    fix g x y c
    assume "card (unrevealed g) \<le> Suc n" "get_square g x y \<notin> set (activated_squares g)"
    then show "activate_square (Suc n) ed drawn g x y c \<noteq> None"
      using activate_adjacent_squares_total [OF Suc] end_game_total [OF Suc]
        check_win_total [OF Suc]
      by (intro activate_square_Suc_total [where m = n])
         (auto dest: activate_adjacent_squares_grows [rotated] activate_square_grows
               simp del: not_None_eq)
  qed
qed

lemma activate_square_total:
  assumes "card (unrevealed g) < n"
  shows "activate_square n ed drawn g x y c \<noteq> None"
proof -
  from assms obtain m where n: "n = Suc m" and m: "card (unrevealed g) \<le> m"
    by (cases n) auto
  show ?thesis
    unfolding n
    using activate_adjacent_squares_total [OF covers_all] end_game_total [OF covers_all]
        check_win_total [OF covers_all] m
    by (intro activate_square_Suc_total [where m = m])
       (auto dest: activate_adjacent_squares_grows [rotated] activate_square_grows
             simp del: not_None_eq)
qed

lemma card_unrevealed_le: "card (unrevealed g) \<le> size g * size g"
proof -
  have "card (unrevealed g) \<le> card {..<size g * size g}"
    by (rule card_mono) (auto simp: unrevealed_def)
  then show ?thesis by simp
qed

section \<open>Termination of a reveal\<close>

lemma activate_square_returns:
  "\<exists>r. activate_square (depth_bound g) ed drawn g x y c = Some r"
proof -
  have "card (unrevealed g) < depth_bound g"
    using card_unrevealed_le [of g] by (simp add: depth_bound_def)
  then have "activate_square (depth_bound g) ed drawn g x y c \<noteq> None"
    by (rule activate_square_total)
  then show ?thesis by blast
qed

text \<open>
  C9. Every call of \<open>activate_square\<close> returns or raises, for every state of the object,
  all coordinates and both values of \<open>check_adjacent\<close>, cascade and end-of-game sweep
  included: one nested call per square of the grid and two more are always enough. A
  square is appended to \<open>activated_squares\<close> before its neighbours are visited and never
  twice, so a list without duplicates stays without duplicates.
\<close>

theorem reveal_terminates:
  "\<exists>r. activate_square (depth_bound g) ed drawn g x y check_adjacent = Some r \<and>
       (distinct (activated_squares g) \<longrightarrow> distinct (activated_squares (state_of r)))"
proof -
  have "card (unrevealed g) < depth_bound g"
    using card_unrevealed_le [of g] by (simp add: depth_bound_def)
  then have "activate_square (depth_bound g) ed drawn g x y check_adjacent \<noteq> None"
    by (rule activate_square_total)
  then obtain r where r: "activate_square (depth_bound g) ed drawn g x y check_adjacent = Some r"
    by blast
  from activate_square_grows [OF r] r show ?thesis
    by (auto simp: grows_def)
qed

theorem reveal_terminates_witness:
  "distinct (activated_squares (start_game 1)) \<and>
   (\<exists>r. activate_square (depth_bound (start_game 1)) Basic [99] (start_game 1) 0 0 True = Some r \<and>
        distinct (activated_squares (state_of r)))"
  using reveal_terminates [of "start_game 1" Basic "[99]" 0 0 True]
  by (simp add: start_game_def)

lemma calculate_in_grid:
  "i < size g * size g \<Longrightarrow>
     calculate_mines_and_flags g (Some i) = Inr (adjacent_mines g i, adjacent_flags g i)"
  by (simp add: calculate_mines_and_flags_def square_coordinates_def adjacent_mines_def
        adjacent_flags_def)

lemma get_square_cong: "size g' = size g \<Longrightarrow> get_square g' x y = get_square g x y"
  by (simp add: get_square_def)

lemma count_around_cong:
  assumes "size g' = size g" "mine_squares g' = mine_squares g"
    "marked_squares g' = marked_squares g"
  shows "count_around g' sq cs acc = count_around g sq cs acc"
proof (induction cs arbitrary: acc)
  case Nil
  show ?case by simp
next
  case (Cons p cs)
  obtain x y where p: "p = (x, y)" by (cases p)
  obtain mines flags where acc: "acc = (mines, flags)" by (cases acc)
  show ?case
    unfolding p acc
    by (simp add: Let_def get_square_cong [OF assms(1)] assms(2,3) Cons.IH)
qed

lemma adjacent_mines_cong:
  assumes "size g' = size g" "mine_squares g' = mine_squares g"
    "marked_squares g' = marked_squares g"
  shows "adjacent_mines g' i = adjacent_mines g i"
  by (simp only: adjacent_mines_def count_around_cong [OF assms] assms(1))

lemma adjacent_flags_cong:
  assumes "size g' = size g" "mine_squares g' = mine_squares g"
    "marked_squares g' = marked_squares g"
  shows "adjacent_flags g' i = adjacent_flags g i"
  by (simp only: adjacent_flags_def count_around_cong [OF assms] assms(1))

lemma activate_square_in_grid:
  assumes "prepare g x y drawn = Returned h" and sq: "get_square g x y = Some i"
  shows "activate_square (Suc n) ed drawn g x y c =
     (if Some i \<in> set (marked_squares h) then Some (Returned h)
      else if Some i \<in> set (activated_squares h) then
        (if adjacent_mines h i = adjacent_flags h i
         then activate_adjacent_squares n ed drawn h (Some i) else Some (Returned h))
      else if Some i \<in> set (mine_squares h) then
        end_game n ed drawn (explode h i (if c then 12 else 9)) ''You lose''
      else
        then_run
          (if adjacent_mines h i = 0 \<and> c
           then activate_adjacent_squares n ed drawn (uncover h i) (Some i)
           else Some (Returned (uncover h i)))
          (\<lambda>g. if ed = Basic \<or> c then check_win n ed drawn g else Some (Returned g)))"
proof -
  note same = prepare_Returned_same [OF assms(1)]
  have "get_square h x y = get_square g x y" by (rule get_square_cong) (rule same)
  with sq have sq': "get_square h x y = Some i" by simp
  then have i: "i < size h * size h" by (rule get_square_less)
  have c1: "calculate_mines_and_flags (counted h (Some i)) (Some i)
      = Inr (adjacent_mines h i, adjacent_flags h i)"
  proof -
    have s: "size (counted h (Some i)) = size h"
      "mine_squares (counted h (Some i)) = mine_squares h"
      "marked_squares (counted h (Some i)) = marked_squares h"
      by (simp_all add: counted_def)
    have "calculate_mines_and_flags (counted h (Some i)) (Some i) =
        Inr (adjacent_mines (counted h (Some i)) i, adjacent_flags (counted h (Some i)) i)"
      by (rule calculate_in_grid) (simp add: s(1) i)
    then show ?thesis
      by (simp only: adjacent_mines_cong [OF s] adjacent_flags_cong [OF s])
  qed
  have c2: "configure (counted h (Some i)) (Some i) (adjacent_mines h i) = Returned (uncover h i)"
    by (simp add: configure_def counted_def uncover_def)
  have c3: "configure (appended h (Some i)) (Some i) img = Returned (explode h i img)" for img
    by (simp add: configure_def appended_def explode_def)
  note eq = activate_square_Suc_Returned [OF assms(1), of n ed c, unfolded sq']
  show ?thesis
  proof (cases "Some i \<in> set (marked_squares h)")
    case True
    then show ?thesis by (simp add: eq)
  next
    case unmarked: False
    show ?thesis
    proof (cases "Some i \<in> set (activated_squares h)")
      case True
      with unmarked show ?thesis by (simp add: eq calculate_in_grid [OF i])
    next
      case hidden: False
      show ?thesis
      proof (cases "Some i \<in> set (mine_squares h)")
        case True
        with unmarked hidden show ?thesis by (simp add: eq c3)
      next
        case False
        with unmarked hidden show ?thesis by (simp add: eq c1 c2)
      qed
    qed
  qed
qed

lemma prepare_started: "activated_squares g \<noteq> [] \<Longrightarrow> prepare g x y drawn = Returned g"
  by (simp add: prepare_def)

lemma activate_adjacent_squares_in_grid:
  "i < size g * size g \<Longrightarrow>
     activate_adjacent_squares n ed drawn g (Some i) =
       adjacent_loop n ed drawn g (window (int (i mod size g)) (int (i div size g)))"
  by (simp add: activate_adjacent_squares.simps square_coordinates_def)

lemma step_same_board: "step c g g' \<Longrightarrow> same_board g g'"
  by (induction rule: step.induct)
     (simp_all add: same_board_def uncover_def explode_def finish_def)

lemma steps_same_board: "steps c g g' \<Longrightarrow> same_board g g'"
  by (induction rule: rtranclp_induct)
     (auto simp: same_board_def dest!: step_same_board)

lemma step_activated: "step c g g' \<Longrightarrow> set (activated_squares g) \<subseteq> set (activated_squares g')"
  by (induction rule: step.induct) (auto simp: uncover_def explode_def finish_def)

lemma steps_activated: "steps c g g' \<Longrightarrow> set (activated_squares g) \<subseteq> set (activated_squares g')"
  by (induction rule: rtranclp_induct) (auto dest!: step_activated)

lemma step_well_formed: "step c g g' \<Longrightarrow> well_formed g \<Longrightarrow> well_formed g'"
  by (induction rule: step.induct)
     (auto simp: well_formed_def uncover_def explode_def finish_def hidden_free_def)

lemma steps_well_formed: "steps c g g' \<Longrightarrow> well_formed g \<Longrightarrow> well_formed g'"
  by (induction rule: rtranclp_induct) (auto dest: step_well_formed)

lemma steps_started: "steps c g g' \<Longrightarrow> activated_squares g \<noteq> [] \<Longrightarrow> activated_squares g' \<noteq> []"
  using steps_activated [of c g g'] by (cases "activated_squares g") auto

lemma steps_get_square: "steps c g g' \<Longrightarrow> get_square g' x y = get_square g x y"
  by (rule get_square_cong) (auto dest: steps_same_board simp: same_board_def)

lemma step_loud: "step c g g' \<Longrightarrow> step True g g'"
  by (induction rule: step.induct) (auto intro: step.intros)

lemma steps_loud: "steps c g g' \<Longrightarrow> steps True g g'"
  by (induction rule: rtranclp_induct)
     (auto dest: step_loud intro: rtranclp.rtrancl_into_rtrancl)

lemma step_quiet: "step False g g' \<Longrightarrow> step c g g'"
  by (induction rule: step.induct) (auto intro: step.intros)

lemma steps_quiet: "steps False g g' \<Longrightarrow> steps c g g'"
  by (induction rule: rtranclp_induct)
     (auto dest: step_quiet [where c = c] intro: rtranclp.rtrancl_into_rtrancl)

lemma adjacent_loop_traced:
  assumes rec: "reveal_traced n ed drawn"
  shows "well_formed g \<Longrightarrow> activated_squares g \<noteq> [] \<Longrightarrow>
     adjacent_loop n ed drawn g cs = Some r \<Longrightarrow>
     \<exists>g'. r = Returned g' \<and> steps True g g' \<and>
       (\<forall>(x, y) \<in> set cs. \<forall>i. get_square g x y = Some i \<longrightarrow>
          Some i \<in> set (marked_squares g) \<or> Some i \<in> set (activated_squares g'))"
proof (induction cs arbitrary: g)
  case Nil
  then show ?case by auto
next
  case (Cons p cs)
  obtain x y where p: "p = (x, y)" by (cases p)
  have tail: ?case
    if run: "adjacent_loop n ed drawn g1 cs = Some r" and g1: "steps True g g1"
      and here: "\<forall>i. get_square g x y = Some i \<longrightarrow>
          Some i \<in> set (marked_squares g) \<or> Some i \<in> set (activated_squares g1)" for g1
  proof -
    from g1 Cons.prems have "well_formed g1" "activated_squares g1 \<noteq> []"
      by (auto dest: steps_well_formed steps_started)
    from Cons.IH [OF this run] obtain g' where g': "r = Returned g'" "steps True g1 g'"
      and rest: "\<forall>(x, y) \<in> set cs. \<forall>i. get_square g1 x y = Some i \<longrightarrow>
          Some i \<in> set (marked_squares g1) \<or> Some i \<in> set (activated_squares g')"
      by blast
    from g1 have sb: "marked_squares g1 = marked_squares g"
      by (auto dest: steps_same_board simp: same_board_def)
    from g1 g'(2) have "steps True g g'" by (rule rtranclp_trans)
    moreover from here steps_activated [OF g'(2)]
    have "\<forall>i. get_square g x y = Some i \<longrightarrow>
          Some i \<in> set (marked_squares g) \<or> Some i \<in> set (activated_squares g')"
      by blast
    moreover from rest have "\<forall>(x, y) \<in> set cs. \<forall>i. get_square g x y = Some i \<longrightarrow>
          Some i \<in> set (marked_squares g) \<or> Some i \<in> set (activated_squares g')"
      by (simp add: steps_get_square [OF g1] sb)
    ultimately show ?thesis using g'(1) by (auto simp: p)
  qed
  show ?case
  proof (cases "get_square g x y \<in> set (activated_squares g) \<or> get_square g x y = None")
    case True
    with Cons.prems(3) have "adjacent_loop n ed drawn g cs = Some r"
      by (auto simp: p Let_def split: if_splits)
    then show ?thesis using True by (intro tail) auto
  next
    case False
    then obtain i where i: "get_square g x y = Some i"
      and "Some i \<notin> set (activated_squares g)" by auto
    with Cons.prems(3)
    have "then_run (activate_square n ed drawn g x y True)
             (\<lambda>g. adjacent_loop n ed drawn g cs) = Some r"
      by (simp add: p Let_def)
    then obtain r1 where r1: "activate_square n ed drawn g x y True = Some r1"
      by (auto simp: then_run_Some)
    with rec Cons.prems(1,2) i obtain g1 where g1: "r1 = Returned g1" "steps True g g1"
      "Some i \<in> set (marked_squares g) \<or> Some i \<in> set (activated_squares g1)"
      unfolding reveal_traced_def by fastforce
    with r1 \<open>then_run _ _ = Some r\<close> have "adjacent_loop n ed drawn g1 cs = Some r"
      by simp
    then show ?thesis using g1 i by (intro tail) auto
  qed
qed

lemma end_game_loop_traced:
  assumes rec: "reveal_traced n ed drawn"
  shows "well_formed g \<Longrightarrow> activated_squares g \<noteq> [] \<Longrightarrow>
     \<forall>(x, y) \<in> set cs. get_square g x y \<noteq> None \<Longrightarrow>
     end_game_loop n ed drawn g cs = Some r \<Longrightarrow>
     \<exists>g'. r = Returned g' \<and> steps False g g' \<and>
       (\<forall>(x, y) \<in> set cs. \<forall>i. get_square g x y = Some i \<longrightarrow>
          Some i \<in> set (marked_squares g) \<or> Some i \<in> set (activated_squares g'))"
proof (induction cs arbitrary: g)
  case Nil
  then show ?case by auto
next
  case (Cons p cs)
  obtain x y where p: "p = (x, y)" by (cases p)
  from Cons.prems(3) obtain i where i: "get_square g x y = Some i" by (auto simp: p)
  have tail: ?case
    if run: "end_game_loop n ed drawn g1 cs = Some r" and g1: "steps False g g1"
      and here: "Some i \<in> set (marked_squares g) \<or> Some i \<in> set (activated_squares g1)" for g1
  proof -
    from g1 Cons.prems have "well_formed g1" "activated_squares g1 \<noteq> []"
      "\<forall>(x, y) \<in> set cs. get_square g1 x y \<noteq> None"
      by (auto dest: steps_well_formed steps_started simp: steps_get_square)
    from Cons.IH [OF this run] obtain g' where g': "r = Returned g'" "steps False g1 g'"
      and rest: "\<forall>(x, y) \<in> set cs. \<forall>i. get_square g1 x y = Some i \<longrightarrow>
          Some i \<in> set (marked_squares g1) \<or> Some i \<in> set (activated_squares g')"
      by blast
    from g1 have sb: "marked_squares g1 = marked_squares g"
      by (auto dest: steps_same_board simp: same_board_def)
    from g1 g'(2) have "steps False g g'" by (rule rtranclp_trans)
    moreover from here steps_activated [OF g'(2)]
    have "Some i \<in> set (marked_squares g) \<or> Some i \<in> set (activated_squares g')"
      by blast
    moreover from rest have "\<forall>(x, y) \<in> set cs. \<forall>i. get_square g x y = Some i \<longrightarrow>
          Some i \<in> set (marked_squares g) \<or> Some i \<in> set (activated_squares g')"
      by (simp add: steps_get_square [OF g1] sb)
    ultimately show ?thesis using g'(1) i by (auto simp: p)
  qed
  show ?case
  proof (cases "Some i \<in> set (activated_squares g)")
    case True
    with Cons.prems(4) have "end_game_loop n ed drawn g cs = Some r"
      by (simp add: p Let_def i)
    then show ?thesis using True by (intro tail) auto
  next
    case False
    with Cons.prems(4)
    have run: "then_run (activate_square n ed drawn g x y False)
             (\<lambda>g. end_game_loop n ed drawn g cs) = Some r"
      by (simp add: p Let_def i)
    then obtain r1 where r1: "activate_square n ed drawn g x y False = Some r1"
      by (auto simp: then_run_Some)
    with rec Cons.prems(1,2) i obtain g1 where g1: "r1 = Returned g1" "steps False g g1"
      "Some i \<in> set (marked_squares g) \<or> Some i \<in> set (activated_squares g1)"
      unfolding reveal_traced_def using False by fastforce
    with r1 run have "end_game_loop n ed drawn g1 cs = Some r"
      by simp
    then show ?thesis using g1 by (intro tail) auto
  qed
qed

lemma all_coordinates_complete:
  assumes "i < size g * size g"
  shows "\<exists>(x, y) \<in> set (all_coordinates (size g)). get_square g x y = Some i"
proof -
  from assms have pos: "0 < size g" by (cases "size g") auto
  let ?x = "i mod size g" and ?y = "i div size g"
  from assms pos have y: "?y < size g" by (simp add: less_mult_imp_div_less)
  from pos have x: "?x < size g" by simp
  have "(int ?x, int ?y) \<in> set (all_coordinates (size g))"
    using x y by (force simp: all_coordinates_def)
  moreover have "get_square g (int ?x) (int ?y) = Some i"
    using y pos by (simp add: get_square_def linorder_not_le flip: of_nat_mult of_nat_add)
  ultimately show ?thesis by blast
qed

lemma end_game_traced:
  assumes rec: "reveal_traced n ed drawn" and wf: "well_formed g"
    and started: "activated_squares g \<noteq> []"
    and run: "end_game n ed drawn g message = Some r"
  shows "\<exists>g'. r = Returned (finish g' message) \<and> steps False g g' \<and> swept g'"
proof -
  from run obtain r1 where r1: "end_game_loop n ed drawn g (all_coordinates (size g)) = Some r1"
    by (auto simp: end_game_Some)
  have "\<forall>(x, y) \<in> set (all_coordinates (size g)). get_square g x y \<noteq> None"
    using all_coordinates_in_range by blast
  from end_game_loop_traced [OF rec wf started this r1]
  obtain g' where g': "r1 = Returned g'" "steps False g g'"
    and all: "\<forall>(x, y) \<in> set (all_coordinates (size g)). \<forall>i. get_square g x y = Some i \<longrightarrow>
          Some i \<in> set (marked_squares g) \<or> Some i \<in> set (activated_squares g')"
    by blast
  from g'(2) have sb: "same_board g g'" by (rule steps_same_board)
  have "swept g'"
    unfolding swept_def hidden_free_def
  proof (intro allI notI, elim conjE)
    fix i
    assume i: "i < size g' * size g'" "Some i \<notin> set (activated_squares g')"
      "Some i \<notin> set (marked_squares g')"
    with sb have "i < size g * size g" by (simp add: same_board_def)
    from all_coordinates_complete [OF this] all i sb show False
      by (auto simp: same_board_def)
  qed
  moreover from run r1 g'(1) have "r = Returned (finish g' message)"
    by (simp add: end_game.simps finish_def)
  ultimately show ?thesis using g'(2) by blast
qed

lemma end_game_steps:
  assumes rec: "reveal_traced n ed drawn" and wf: "well_formed g"
    and started: "activated_squares g \<noteq> []"
    and run: "end_game n ed drawn g message = Some r"
  shows "\<exists>g'. r = Returned g' \<and> steps False g g'"
proof -
  from end_game_traced [OF assms] obtain g' where
    g': "r = Returned (finish g' message)" "steps False g g'" "swept g'" by blast
  from g'(3) have "step False g' (finish g' message)" by (rule step.finish)
  with g'(2) have "steps False g (finish g' message)" by (rule rtranclp.rtrancl_into_rtrancl)
  with g'(1) show ?thesis by blast
qed

lemma note_win_steps: "steps c g (note_win ed g)"
  by (cases ed) (auto simp: note_win_def intro: step.note_win)

lemma note_win_same:
  "well_formed (note_win ed g) = well_formed g"
  "activated_squares (note_win ed g) = activated_squares g"
  by (cases ed; simp add: note_win_def well_formed_def)+

lemma check_win_steps:
  assumes rec: "reveal_traced n ed drawn" and wf: "well_formed g"
    and started: "activated_squares g \<noteq> []"
    and run: "check_win n ed drawn g = Some r"
  shows "\<exists>g'. r = Returned g' \<and> steps False g g'"
proof (cases "win_fires ed g")
  case True
  with run have "end_game n ed drawn (note_win ed g) (win_message ed) = Some r"
    by (simp add: check_win_eq)
  from end_game_steps [OF rec _ _ this] wf started
  obtain g' where "r = Returned g'" "steps False (note_win ed g) g'"
    by (auto simp: note_win_same)
  with note_win_steps [of False g ed] show ?thesis
    by (blast intro: rtranclp_trans)
next
  case False
  with run show ?thesis by (auto simp: check_win_eq)
qed

lemma activate_adjacent_squares_steps:
  assumes rec: "reveal_traced n ed drawn" and wf: "well_formed g"
    and started: "activated_squares g \<noteq> []" and i: "i < size g * size g"
    and run: "activate_adjacent_squares n ed drawn g (Some i) = Some r"
  shows "\<exists>g'. r = Returned g' \<and> steps True g g'"
  using adjacent_loop_traced [OF rec wf started] run
  unfolding activate_adjacent_squares_in_grid [OF i] by blast

lemma activate_square_Suc_traced:
  assumes rec: "reveal_traced n ed drawn" and prep: "prepare g x y drawn = Returned h"
    and wf: "well_formed h" and sq: "get_square g x y = Some i"
    and run: "activate_square (Suc n) ed drawn g x y c = Some r"
  shows "\<exists>g'. r = Returned g' \<and> steps (c \<or> Some i \<in> set (activated_squares h)) h g' \<and>
       (Some i \<in> set (marked_squares h) \<or> Some i \<in> set (activated_squares g'))"
proof -
  from sq have "i < size g * size g" by (rule get_square_less)
  then have i: "i < size h * size h" by (simp add: prepare_Returned_same [OF prep])
  note eq = activate_square_in_grid [OF prep sq, where n = n and ed = ed and c = c]
  show ?thesis
  proof (cases "Some i \<in> set (marked_squares h)")
    case True
    with run show ?thesis by (auto simp: eq)
  next
    case unmarked: False
    show ?thesis
    proof (cases "Some i \<in> set (activated_squares h)")
      case True
      then have started: "activated_squares h \<noteq> []" by auto
      show ?thesis
      proof (cases "adjacent_mines h i = adjacent_flags h i")
        case same: True
        with run unmarked True
        have "activate_adjacent_squares n ed drawn h (Some i) = Some r"
          by (simp add: eq)
        from activate_adjacent_squares_steps [OF rec wf started i this]
        obtain g' where "r = Returned g'" "steps True h g'" by blast
        with True steps_activated [of True h g'] show ?thesis by auto
      next
        case False
        with run unmarked True show ?thesis by (auto simp: eq)
      qed
    next
      case hidden: False
      with unmarked i have hf: "hidden_free h i" by (simp add: hidden_free_def)
      show ?thesis
      proof (cases "Some i \<in> set (mine_squares h)")
        case True
        let ?g1 = "explode h i (if c then 12 else 9)"
        from hf True have s1: "step c h ?g1" by (intro step.explode) auto
        then have wf1: "well_formed ?g1" using wf by (rule step_well_formed)
        have st1: "activated_squares ?g1 \<noteq> []" by (simp add: explode_def)
        from run unmarked hidden True
        have "end_game n ed drawn ?g1 ''You lose'' = Some r" by (simp add: eq)
        from end_game_steps [OF rec wf1 st1 this]
        obtain g' where g': "r = Returned g'" "steps False ?g1 g'" by blast
        from s1 steps_quiet [OF g'(2)] have "steps c h g'"
          by (rule converse_rtranclp_into_rtranclp)
        moreover have "Some i \<in> set (activated_squares g')"
          using steps_activated [OF g'(2)] by (auto simp: explode_def)
        ultimately show ?thesis using g'(1) hidden by auto
      next
        case safe: False
        let ?g1 = "uncover h i"
        from hf safe have s1: "step c h ?g1" by (rule step.uncover)
        then have wf1: "well_formed ?g1" using wf by (rule step_well_formed)
        have st1: "activated_squares ?g1 \<noteq> []" by (simp add: uncover_def)
        have i1: "i < size ?g1 * size ?g1" using i by (simp add: uncover_def)
        let ?adj = "if adjacent_mines h i = 0 \<and> c
           then activate_adjacent_squares n ed drawn ?g1 (Some i)
           else Some (Returned ?g1)"
        from run unmarked hidden safe
        have rest: "then_run ?adj
            (\<lambda>g. if ed = Basic \<or> c then check_win n ed drawn g else Some (Returned g)) = Some r"
          by (simp add: eq)
        then obtain r2 where r2: "?adj = Some r2" by (auto simp: then_run_Some)
        have "\<exists>g2. r2 = Returned g2 \<and> steps c ?g1 g2"
        proof (cases "adjacent_mines h i = 0 \<and> c")
          case True
          with r2 have "activate_adjacent_squares n ed drawn ?g1 (Some i) = Some r2" by simp
          from activate_adjacent_squares_steps [OF rec wf1 st1 i1 this] True show ?thesis
            by simp
        next
          case False
          with r2 show ?thesis by auto
        qed
        then obtain g2 where g2: "r2 = Returned g2" "steps c ?g1 g2" by blast
        from g2(2) wf1 st1 have wf2: "well_formed g2" and st2: "activated_squares g2 \<noteq> []"
          by (auto dest: steps_well_formed steps_started)
        from rest r2 g2(1)
        have last: "(if ed = Basic \<or> c then check_win n ed drawn g2 else Some (Returned g2))
            = Some r" by simp
        have "\<exists>g'. r = Returned g' \<and> steps c g2 g'"
        proof (cases "ed = Basic \<or> c")
          case True
          with last have "check_win n ed drawn g2 = Some r" by simp
          from check_win_steps [OF rec wf2 st2 this] show ?thesis
            by (blast intro: steps_quiet)
        next
          case False
          with last show ?thesis by auto
        qed
        then obtain g' where g': "r = Returned g'" "steps c g2 g'" by blast
        from s1 g2(2) g'(2) have "steps c h g'"
          by (meson converse_rtranclp_into_rtranclp rtranclp_trans)
        moreover have "Some i \<in> set (activated_squares g')"
          using steps_activated [OF g2(2)] steps_activated [OF g'(2)]
          by (auto simp: uncover_def)
        ultimately show ?thesis using g'(1) hidden by auto
      qed
    qed
  qed
qed

lemma reveal_traced_all: "reveal_traced n ed drawn"
proof (induction n)
  case 0
  show ?case by (simp add: reveal_traced_def)
next
  case (Suc n)
  show ?case
    unfolding reveal_traced_def
    using activate_square_Suc_traced [OF Suc prepare_started]
    by blast
qed

lemma list_pop_upt:
  assumes "i < n"
  shows "list_pop [0..<n] (int i) = Inr (filter (\<lambda>j. j \<noteq> i) [0..<n])"
proof -
  from assms have split: "[0..<n] = [0..<i] @ i # [Suc i..<n]"
    by (metis le_add_diff_inverse less_imp_le_nat upt_add_eq_append upt_conv_Cons zero_le)
  have "take i [0..<n] @ drop (Suc i) [0..<n] = [0..<i] @ [Suc i..<n]"
    using assms by (simp add: take_upt drop_upt)
  also have "\<dots> = filter (\<lambda>j. j \<noteq> i) ([0..<i] @ i # [Suc i..<n])"
    by (simp add: filter_id_conv)
  also have "\<dots> = filter (\<lambda>j. j \<noteq> i) [0..<n]"
    using split by simp
  finally show ?thesis using assms by (simp add: list_pop_def)
qed

lemma first_click_in_grid:
  assumes sq: "get_square g x y = Some i"
    and smp: "is_sample (population g i) (undiscovered_mines g) drawn"
  shows "first_click g x y drawn = Returned (mined g drawn)"
proof -
  from sq have i: "i < size g ^ 2" using get_square_less by (simp add: power2_eq_square)
  from sq have "y * int (size g) + x = int i" by (auto simp: get_square_Some)
  then have pop: "list_pop [0..<size g ^ 2] (y * int (size g) + x) = Inr (population g i)"
    using list_pop_upt [OF i] by (simp add: population_def)
  from smp have "length drawn \<le> length (population g i)"
    unfolding is_sample_def by (metis card_mono distinct_card List.finite_set card_length le_trans)
  with smp have "sample (population g i) (undiscovered_mines g) drawn = Inr drawn"
    by (simp add: sample_def is_sample_def)
  with pop show ?thesis
    by (simp add: first_click_def generate_mines_def mined_def)
qed

lemma mined_well_formed:
  assumes "well_formed g" "is_sample (population g i) k drawn"
  shows "well_formed (mined g drawn)"
  using assms
  by (auto simp: well_formed_def mined_def is_sample_def population_def power2_eq_square)

lemma mined_same [simp]:
  "size (mined g drawn) = size g" "activated_squares (mined g drawn) = activated_squares g"
  "marked_squares (mined g drawn) = marked_squares g"
  "undiscovered_squares (mined g drawn) = undiscovered_squares g"
  "mines_label (mined g drawn) = mines_label g"
  "undiscovered_mines (mined g drawn) = undiscovered_mines g"
  "mine_squares (mined g drawn) = mine_squares g @ map Some drawn"
  "ending_text (mined g drawn) = ending_text g" "bound (mined g drawn) = bound g"
  "has_won (mined g drawn) = has_won g" "images (mined g drawn) = images g"
  by (simp_all add: mined_def)

lemma prepare_in_grid:
  assumes "get_square g x y = Some i"
    and "activated_squares g = [] \<longrightarrow> is_sample (population g i) (undiscovered_mines g) drawn"
  shows "prepare g x y drawn = Returned (prepared g drawn)"
  using assms first_click_in_grid [of g x y i drawn]
  by (simp add: prepare_def prepared_def)

lemma prepared_well_formed:
  assumes "well_formed g"
    and "activated_squares g = [] \<longrightarrow> is_sample (population g i) k drawn"
  shows "well_formed (prepared g drawn)"
  using assms mined_well_formed [of g i k drawn] by (simp add: prepared_def)

lemma reveal_steps:
  assumes wf: "well_formed g" and sq: "get_square g x y = Some i"
    and smp: "activated_squares g = [] \<longrightarrow>
        is_sample (population g i) (undiscovered_mines g) drawn"
    and run: "activate_square n ed drawn g x y c = Some r"
  shows "\<exists>g'. r = Returned g' \<and> steps True (prepared g drawn) g' \<and>
     (Some i \<in> set (marked_squares g) \<or> Some i \<in> set (activated_squares g'))"
proof -
  from run obtain m where n: "n = Suc m" by (cases n) auto
  have wfh: "well_formed (prepared g drawn)" using wf smp by (rule prepared_well_formed)
  have "marked_squares (prepared g drawn) = marked_squares g" by (simp add: prepared_def)
  with activate_square_Suc_traced [OF reveal_traced_all prepare_in_grid [OF sq smp] wfh sq
      run [unfolded n]]
  show ?thesis by (auto intro: steps_loud)
qed

lemma depth_bound_Suc: "depth_bound g = Suc (size g * size g + 1)"
  by (simp add: depth_bound_def)

lemma first_click_result:
  assumes wf: "well_formed g" and fresh: "activated_squares g = []"
    and sq: "get_square g x y = Some i"
    and smp: "is_sample (population g i) (undiscovered_mines g) drawn"
  shows "\<exists>g'. activate_square (depth_bound g) ed drawn g x y c = Some (Returned g') \<and>
     steps True (mined g drawn) g' \<and>
     (Some i \<in> set (marked_squares g) \<or> Some i \<in> set (activated_squares g'))"
proof -
  obtain r where r: "activate_square (depth_bound g) ed drawn g x y c = Some r"
    using activate_square_returns by blast
  from reveal_steps [OF wf sq _ r] smp fresh show ?thesis
    using r by (auto simp: prepared_def)
qed

text \<open>
  A click made while no square is activated and no mine is placed yet, \<open>drawn\<close> being
  what \<open>random.sample\<close> returns for the population without the clicked square, leaves
  exactly the drawn squares as mines; the clicked square is not among them, and it is
  revealed unless it carries a flag.
\<close>

lemma fresh_click_safe:
  assumes "well_formed g" and "bound g"
    and "activated_squares g = []" and "mine_squares g = []"
    and "get_square g x y = Some i"
    and "is_sample (population g i) (undiscovered_mines g) drawn"
  shows "\<exists>g'. left_click ed drawn g x y = Some (Returned g') \<and>
     mine_squares g' = map Some drawn \<and>
     length (mine_squares g') = undiscovered_mines g \<and>
     distinct (mine_squares g') \<and>
     set (mine_squares g') \<subseteq> Some ` {j. j < size g * size g \<and> j \<noteq> i} \<and>
     Some i \<notin> set (mine_squares g') \<and>
     (Some i \<notin> set (marked_squares g) \<longrightarrow> Some i \<in> set (activated_squares g'))"
proof -
  from first_click_result [OF assms(1,3,5,6)] obtain g' where
    g': "activate_square (depth_bound g) ed drawn g x y True = Some (Returned g')"
      "steps True (mined g drawn) g'"
      "Some i \<in> set (marked_squares g) \<or> Some i \<in> set (activated_squares g')"
    by blast
  from steps_same_board [OF g'(2)] assms(4)
  have mines: "mine_squares g' = map Some drawn"
    by (simp add: same_board_def)
  from assms(6) have "length drawn = undiscovered_mines g" "distinct drawn"
    "set drawn \<subseteq> {j. j < size g * size g \<and> j \<noteq> i}"
    by (auto simp: is_sample_def population_def power2_eq_square)
  with mines g' assms(2,5) show ?thesis
    by (auto simp: left_click_def distinct_map)
qed

lemma mark_square_in_grid:
  assumes "get_square g x y = Some i"
  shows "mark_square g x y =
     (if Some i \<in> set (activated_squares g) then Returned g
      else if Some i \<in> set (marked_squares g) then
        Returned (g\<lparr>marked_squares := remove1 (Some i) (marked_squares g),
                    images := (images g)(i := 10), mines_label := mines_label g + 1\<rparr>)
      else if mines_label g > 0 then
        Returned (g\<lparr>marked_squares := marked_squares g @ [Some i],
                    images := (images g)(i := 11), mines_label := mines_label g - 1\<rparr>)
      else Returned g)"
  by (simp add: mark_square_def assms Let_def configure_def)

lemma mark_square_flags_ok:
  assumes ok: "flags_ok g" and sq: "get_square g x y = Some i"
    and run: "mark_square g x y = Returned g'"
  shows "flags_ok g'"
proof -
  from sq have i: "i < size g * size g" by (rule get_square_less)
  have len: "int (length (remove1 (Some i) (marked_squares g))) =
      int (length (marked_squares g)) - 1" if "Some i \<in> set (marked_squares g)"
  proof -
    from that obtain k where "length (marked_squares g) = Suc k"
      by (cases "marked_squares g") auto
    with that show ?thesis by (simp add: length_remove1)
  qed
  from run ok i show ?thesis
    unfolding mark_square_in_grid [OF sq] flags_ok_def well_formed_def
    by (auto simp: len split: if_splits dest: notin_set_remove1)
qed

lemma right_click_flags_ok:
  assumes "flags_ok g" "right_click g x y = Returned g'"
  shows "flags_ok g'"
  using assms mark_square_flags_ok [of g x y _ g']
  by (auto simp: right_click_def split: if_splits)

lemma left_click_steps:
  assumes wf: "well_formed g"
    and smp: "\<forall>i. get_square g x y = Some i \<longrightarrow>
       is_sample (population g i) (undiscovered_mines g) drawn"
    and run: "left_click ed drawn g x y = Some (Returned g')"
  shows "g' = g \<or> steps True (prepared g drawn) g'"
proof (cases "bound g \<and> get_square g x y \<noteq> None")
  case True
  then obtain i where i: "get_square g x y = Some i" by auto
  from run True have "activate_square (depth_bound g) ed drawn g x y True = Some (Returned g')"
    by (simp add: left_click_def)
  from reveal_steps [OF wf i _ this] smp i show ?thesis by auto
next
  case False
  with run show ?thesis by (auto simp: left_click_def)
qed

lemma prepared_flags_ok: "flags_ok g \<Longrightarrow> well_formed (prepared g drawn) \<Longrightarrow>
    flags_ok (prepared g drawn)"
  by (simp add: flags_ok_def prepared_def)

lemma steps_flags_ok:
  assumes "steps c g g'" "flags_ok g"
  shows "flags_ok g'"
  using steps_same_board [OF assms(1)] steps_well_formed [OF assms(1)] assms(2)
  by (simp add: flags_ok_def same_board_def)

lemma left_click_flags_ok:
  assumes ok: "flags_ok g"
    and smp: "\<forall>i. get_square g x y = Some i \<longrightarrow>
       is_sample (population g i) (undiscovered_mines g) drawn"
    and run: "left_click ed drawn g x y = Some (Returned g')"
  shows "flags_ok g'"
proof (cases "bound g \<and> get_square g x y \<noteq> None")
  case True
  then obtain i where i: "get_square g x y = Some i" by auto
  from ok have wf: "well_formed g" by (simp add: flags_ok_def)
  from smp i have "activated_squares g = [] \<longrightarrow>
      is_sample (population g i) (undiscovered_mines g) drawn" by simp
  with wf have "well_formed (prepared g drawn)" by (rule prepared_well_formed)
  with ok have p: "flags_ok (prepared g drawn)" by (rule prepared_flags_ok)
  from left_click_steps [OF wf smp run] show ?thesis
  proof
    assume "g' = g" with ok show ?thesis by simp
  next
    assume "steps True (prepared g drawn) g'"
    then show ?thesis using p by (rule steps_flags_ok)
  qed
next
  case False
  with run ok show ?thesis by (auto simp: left_click_def)
qed

lemma start_game_flags_ok: "flags_ok (start_game mines)"
  by (simp add: flags_ok_def well_formed_def start_game_def)

lemma reachable_flags_ok: "reachable ed g \<Longrightarrow> flags_ok g"
  by (induction rule: reachable.induct)
     (auto intro: start_game_flags_ok right_click_flags_ok left_click_flags_ok)

text \<open>
  C8. In every state a game can reach, the flagged squares are pairwise distinct and at
  most as many as the spin box value, and the mine counter label is that value minus the
  number of flags, never negative. On a hidden, unflagged square \<open>mark_square\<close> changes
  nothing once that many flags are placed; on a flagged square it always removes the flag
  and adds one to the counter.
\<close>

theorem flag_cap:
  assumes "reachable ed g" and "get_square g x y = Some i"
  shows "distinct (marked_squares g) \<and>
     length (marked_squares g) \<le> undiscovered_mines g \<and>
     mines_label g = int (undiscovered_mines g) - int (length (marked_squares g)) \<and>
     0 \<le> mines_label g \<and>
     (Some i \<notin> set (activated_squares g) \<longrightarrow> Some i \<notin> set (marked_squares g) \<longrightarrow>
        length (marked_squares g) = undiscovered_mines g \<longrightarrow> mark_square g x y = Returned g) \<and>
     (Some i \<in> set (marked_squares g) \<longrightarrow>
        (\<exists>g'. mark_square g x y = Returned g' \<and> Some i \<notin> set (marked_squares g') \<and>
           Suc (length (marked_squares g')) = length (marked_squares g) \<and>
           mines_label g' = mines_label g + 1))"
proof -
  from assms(1) have ok: "flags_ok g" by (rule reachable_flags_ok)
  then have wf: "well_formed g" by (simp add: flags_ok_def)
  have "Some i \<notin> set (remove1 (Some i) (marked_squares g))"
    using wf by (simp add: well_formed_def)
  moreover have "Suc (length (remove1 (Some i) (marked_squares g))) = length (marked_squares g)"
    if "Some i \<in> set (marked_squares g)"
  proof -
    from that obtain k where "length (marked_squares g) = Suc k"
      by (cases "marked_squares g") auto
    with that show ?thesis by (simp add: length_remove1)
  qed
  moreover have "Some i \<notin> set (activated_squares g)" if "Some i \<in> set (marked_squares g)"
    using that wf by (auto simp: well_formed_def)
  ultimately show ?thesis
    using ok unfolding mark_square_in_grid [OF assms(2)] flags_ok_def well_formed_def
    by auto
qed

theorem flag_cap_witness:
  "reachable Basic (state_of (right_click (start_game 1) 0 0)) \<and>
   length (marked_squares (state_of (right_click (start_game 1) 0 0))) = 1 \<and>
   mark_square (state_of (right_click (start_game 1) 0 0)) 1 0 =
     Returned (state_of (right_click (start_game 1) 0 0)) \<and>
   (\<exists>g'. mark_square (state_of (right_click (start_game 1) 0 0)) 0 0 = Returned g' \<and>
      marked_squares g' = [] \<and> mines_label g' = 1)"
proof -
  let ?g = "state_of (right_click (start_game 1) 0 0)"
  have g: "?g = (start_game 1)\<lparr>marked_squares := [Some 0], images := (images (start_game 1))(0 := 11),
      mines_label := 0\<rparr>"
    by (simp add: right_click_def mark_square_def get_square_def start_game_def configure_def)
  have "reachable Basic (start_game 1)" by (rule reachable.start) simp
  moreover have "right_click (start_game 1) 0 0 = Returned ?g"
    by (simp add: right_click_def mark_square_def get_square_def start_game_def configure_def)
  ultimately have r: "reachable Basic ?g" by (rule reachable.flag)
  have sq: "get_square ?g 1 0 = Some 1" "get_square ?g 0 0 = Some 0"
    unfolding g by (simp_all add: get_square_def start_game_def)
  from flag_cap [OF r sq(1)] flag_cap [OF r sq(2)] r show ?thesis
    unfolding g by (auto simp: start_game_def)
qed

lemma left_click_flagged:
  assumes "bound g" and sq: "get_square g x y = Some i"
    and "Some i \<in> set (marked_squares g)"
    and smp: "activated_squares g = [] \<longrightarrow>
        is_sample (population g i) (undiscovered_mines g) drawn"
  shows "left_click ed drawn g x y = Some (Returned (prepared g drawn))"
proof -
  have "marked_squares (prepared g drawn) = marked_squares g" by (simp add: prepared_def)
  with assms(1,3) sq show ?thesis
    by (simp add: left_click_def depth_bound_Suc
          activate_square_in_grid [OF prepare_in_grid [OF sq smp] sq])
qed

text \<open>
  C3. The mines are generated again by every left click made while no square is
  activated. In a new game with one mine, flag the square \<open>(0, 0)\<close> and click it twice:
  each click is rejected because of the flag, and each one draws mines. After the first
  click the only mine is square 99, after the second the mines are the squares 99 and 98.
\<close>

theorem mines_generated_twice:
  "\<exists>g1 g2 g3.
     right_click (start_game 1) 0 0 = Returned g1 \<and>
     is_sample (population g1 0) (undiscovered_mines g1) [99] \<and>
     left_click ed [99] g1 0 0 = Some (Returned g2) \<and>
     mine_squares g2 = [Some 99] \<and> activated_squares g2 = [] \<and>
     is_sample (population g2 0) (undiscovered_mines g2) [98] \<and>
     left_click ed [98] g2 0 0 = Some (Returned g3) \<and>
     mine_squares g3 = [Some 99, Some 98]"
proof -
  define g1 where "g1 = (start_game 1)\<lparr>marked_squares := [Some 0],
      images := (images (start_game 1))(0 := 11), mines_label := 0\<rparr>"
  have 1: "right_click (start_game 1) 0 0 = Returned g1"
    by (simp add: g1_def right_click_def mark_square_def get_square_def start_game_def
          configure_def)
  have s1: "is_sample (population g1 0) (undiscovered_mines g1) [99]"
    by (simp add: g1_def is_sample_def population_def start_game_def)
  have b1: "bound g1" "get_square g1 0 0 = Some 0" "Some 0 \<in> set (marked_squares g1)"
    by (simp_all add: g1_def get_square_def start_game_def)
  have 2: "left_click ed [99] g1 0 0 = Some (Returned (prepared g1 [99]))"
    using b1 s1 by (intro left_click_flagged) auto
  define g2 where "g2 = prepared g1 [99]"
  have g2: "g2 = mined g1 [99]" by (simp add: g2_def prepared_def g1_def start_game_def)
  have s2: "is_sample (population g2 0) (undiscovered_mines g2) [98]"
    by (simp add: g2 g1_def is_sample_def population_def start_game_def)
  have b2: "bound g2" "get_square g2 0 0 = Some 0" "Some 0 \<in> set (marked_squares g2)"
    by (simp_all add: g2 g1_def get_square_def start_game_def)
  have 3: "left_click ed [98] g2 0 0 = Some (Returned (prepared g2 [98]))"
    using b2 s2 by (intro left_click_flagged) auto
  have m2: "mine_squares g2 = [Some 99]" "activated_squares g2 = []"
    by (simp_all add: g2 g1_def start_game_def)
  then have m3: "mine_squares (prepared g2 [98]) = [Some 99, Some 98]"
    by (simp add: prepared_def)
  from 1 s1 2 m2 s2 3 m3 show ?thesis
    unfolding g2_def [symmetric] by blast
qed

text \<open>
  C7, as stated, fails: called with coordinates outside the grid, \<open>mark_square\<close> appends
  \<open>None\<close> to the flag list before the attribute lookup on \<open>None\<close> raises, and a first
  \<open>activate_square\<close> places the mines, appends \<open>None\<close> to the revealed list and
  decrements the counter of safe squares before \<open>calculate_mines_and_flags\<close> raises.
\<close>

theorem out_of_range_mutates:
  "get_square (start_game 1) 10 0 = None \<and>
   mark_square (start_game 1) 10 0 =
     Raised AttributeError ((start_game 1)\<lparr>marked_squares := [None]\<rparr>) \<and>
   get_square (start_game 1) (- 1) 0 = None \<and>
   activate_square (depth_bound (start_game 1)) Basic [5] (start_game 1) (- 1) 0 True =
     Some (Raised TypeError
       ((start_game 1)\<lparr>mine_squares := [Some 5], activated_squares := [None],
          undiscovered_squares := 98\<rparr>))"
proof -
  let ?g = "start_game 1"
  have a: "get_square ?g 10 0 = None" "get_square ?g (- 1) 0 = None"
    by (simp_all add: get_square_def start_game_def)
  have b: "mark_square ?g 10 0 = Raised AttributeError (?g\<lparr>marked_squares := [None]\<rparr>)"
    by (simp add: mark_square_def Let_def get_square_def configure_def start_game_def)
  define h where "h = mined ?g [5]"
  have "list_pop [0..<10 ^ 2] (- 1) = Inr (take 99 [0..<100::nat] @ drop 100 [0..<100])"
    by (simp add: list_pop_def)
  then have p: "prepare ?g (- 1) 0 [5] = Returned h"
    by (simp add: prepare_def first_click_def generate_mines_def sample_def mined_def
          start_game_def h_def)
  have sq: "get_square h (- 1) 0 = None"
    by (simp add: get_square_def)
  have l: "None \<notin> set (marked_squares h)" "None \<notin> set (activated_squares h)"
    "None \<notin> set (mine_squares h)"
    by (simp_all add: h_def start_game_def)
  have c: "calculate_mines_and_flags (counted h None) None = Inl TypeError"
    by (simp add: calculate_mines_and_flags_def square_coordinates_def)
  have "activate_square (depth_bound ?g) Basic [5] ?g (- 1) 0 True =
      Some (Raised TypeError (counted h None))"
    unfolding depth_bound_Suc activate_square_Suc_Returned [OF p] sq
    by (simp add: c l)
  moreover have "counted h None =
      ?g\<lparr>mine_squares := [Some 5], activated_squares := [None], undiscovered_squares := 98\<rparr>"
    by (simp add: counted_def mined_def start_game_def h_def)
  ultimately show ?thesis using a b by simp
qed

text \<open>
  C7, amended. \<open>get_square\<close> answers \<open>None\<close> exactly for the coordinates outside the
  grid, and the neighbour loop of a reveal passes over such coordinates without any
  effect. Take a game whose mine, revealed and flag lists hold squares of the grid only,
  whose revealed list and flag list have no repetition and no square in common, and a
  square \<open>(x, y)\<close> of the grid; if no square is revealed yet, let \<open>drawn\<close> be a valid
  sample: as many squares as the spin box says, pairwise distinct, of the grid and other
  than \<open>(x, y)\<close>. Then \<open>activate_square\<close> at \<open>(x, y)\<close> and \<open>mark_square\<close> at \<open>(x, y)\<close> each
  return without an exception, and the lists of the game they leave have the same
  properties.
\<close>

theorem out_of_range_skipped:
  assumes "well_formed g" and "get_square g x y = Some i"
    and "activated_squares g = [] \<longrightarrow>
        is_sample (population g i) (undiscovered_mines g) drawn"
  shows "(\<forall>x' y'. get_square g x' y' = None \<longleftrightarrow>
            x' < 0 \<or> y' < 0 \<or> int (size g) \<le> x' \<or> int (size g) \<le> y') \<and>
     (\<forall>x' y' n cs. get_square g x' y' = None \<longrightarrow>
        adjacent_loop n ed drawn g ((x', y') # cs) = adjacent_loop n ed drawn g cs) \<and>
     (\<exists>g'. activate_square (depth_bound g) ed drawn g x y c = Some (Returned g') \<and>
        well_formed g') \<and>
     (\<exists>g'. mark_square g x y = Returned g' \<and> well_formed g')"
proof -
  obtain r where r: "activate_square (depth_bound g) ed drawn g x y c = Some r"
    using activate_square_returns by blast
  from reveal_steps [OF assms r] obtain g' where g': "r = Returned g'"
    "steps True (prepared g drawn) g'" by blast
  from assms(1,3) have "well_formed (prepared g drawn)" by (rule prepared_well_formed)
  with g'(2) have "well_formed g'" by (rule steps_well_formed)
  moreover have "\<exists>g'. mark_square g x y = Returned g' \<and> well_formed g'"
    using assms(1) get_square_less [OF assms(2)]
    unfolding mark_square_in_grid [OF assms(2)] well_formed_def
    by (auto dest: notin_set_remove1)
  ultimately show ?thesis
    using r g'(1) by (auto simp: get_square_def Let_def)
qed

theorem out_of_range_skipped_witness:
  "well_formed (start_game 1) \<and> get_square (start_game 1) 0 0 = Some 0 \<and>
   is_sample (population (start_game 1) 0) (undiscovered_mines (start_game 1)) [99] \<and>
   get_square (start_game 1) 10 0 = None \<and>
   adjacent_loop 3 Basic [99] (start_game 1) [(10, 0)] = Some (Returned (start_game 1)) \<and>
   (\<exists>g'. activate_square (depth_bound (start_game 1)) Basic [99] (start_game 1) 0 0 True
        = Some (Returned g') \<and> well_formed g') \<and>
   (\<exists>g'. mark_square (start_game 1) 0 0 = Returned g' \<and> well_formed g')"
proof -
  have h: "well_formed (start_game 1)" "get_square (start_game 1) 0 0 = Some 0"
    "activated_squares (start_game 1) = [] \<longrightarrow>
       is_sample (population (start_game 1) 0) (undiscovered_mines (start_game 1)) [99]"
    by (simp_all add: start_game_def well_formed_def get_square_def is_sample_def
          population_def)
  have n: "get_square (start_game 1) 10 0 = None"
    by (simp add: get_square_def start_game_def)
  from out_of_range_skipped [OF h, of Basic True] h n show ?thesis
    by (auto simp: start_game_def)
qed

lemma count_around_filter:
  "count_around g sq cs (m, f) =
     (m + length (filter (\<lambda>(x, y). get_square g x y \<noteq> sq \<and>
                            get_square g x y \<in> set (mine_squares g)) cs),
      f + length (filter (\<lambda>(x, y). get_square g x y \<noteq> sq \<and>
                            get_square g x y \<in> set (marked_squares g)) cs))"
proof (induction cs arbitrary: m f)
  case Nil
  show ?case by simp
next
  case (Cons p cs)
  obtain x y where p: "p = (x, y)" by (cases p)
  show ?case unfolding p by (simp add: Let_def Cons.IH)
qed

lemma adjacent_mines_filter:
  "adjacent_mines g i =
     length (filter (\<lambda>(x, y). get_square g x y \<noteq> Some i \<and>
                          get_square g x y \<in> set (mine_squares g))
               (window (int (i mod size g)) (int (i div size g))))"
  by (simp add: adjacent_mines_def count_around_filter)

lemma adjacent_flags_filter:
  "adjacent_flags g i =
     length (filter (\<lambda>(x, y). get_square g x y \<noteq> Some i \<and>
                          get_square g x y \<in> set (marked_squares g))
               (window (int (i mod size g)) (int (i div size g))))"
  by (simp add: adjacent_flags_def count_around_filter)

lemma adjacent_mines_zero:
  assumes "adjacent_mines g i = 0"
    and "(x, y) \<in> set (window (int (i mod size g)) (int (i div size g)))"
    and "get_square g x y = Some j" and "j \<noteq> i"
  shows "Some j \<notin> set (mine_squares g)"
proof -
  from assms(1) have "\<forall>p \<in> set (window (int (i mod size g)) (int (i div size g))).
      \<not> (case p of (x, y) \<Rightarrow> get_square g x y \<noteq> Some i \<and>
                          get_square g x y \<in> set (mine_squares g))"
    unfolding adjacent_mines_filter by (simp only: length_0_conv filter_empty_conv)
  with assms(2-4) show ?thesis by fastforce
qed

lemma uncovering_step: "uncovering g g' \<Longrightarrow> step c g g'"
  by (auto simp: uncovering_def intro: step.uncover)

lemma uncovers_steps: "uncovers g g' \<Longrightarrow> steps c g g'"
  by (induction rule: rtranclp_induct)
     (auto dest: uncovering_step [where c = c] intro: rtranclp.rtrancl_into_rtrancl)

lemma uncovers_in_progress: "uncovers g g' \<Longrightarrow> in_progress g' = in_progress g"
  by (induction rule: rtranclp_induct)
     (auto simp: uncovering_def uncover_def in_progress_def)

lemma step_counter_le: "step c g g' \<Longrightarrow> undiscovered_squares g' \<le> undiscovered_squares g"
  by (induction rule: step.induct) (simp_all add: uncover_def explode_def finish_def)

lemma steps_counter_le: "steps c g g' \<Longrightarrow> undiscovered_squares g' \<le> undiscovered_squares g"
  by (induction rule: rtranclp_induct) (auto dest: step_counter_le)

lemma step_has_won: "step c g g' \<Longrightarrow> has_won g \<Longrightarrow> has_won g'"
  by (induction rule: step.induct) (simp_all add: uncover_def explode_def finish_def)

lemma steps_has_won: "steps c g g' \<Longrightarrow> has_won g \<Longrightarrow> has_won g'"
  by (induction rule: rtranclp_induct) (auto dest: step_has_won)

lemma steps_swept:
  assumes "steps c g g'" "swept g"
  shows "swept g'"
  using steps_same_board [OF assms(1)] steps_activated [OF assms(1)] assms(2)
  by (auto simp: swept_def hidden_free_def same_board_def)

lemma finish_simps [simp]:
  "ending_text (finish g m) = m" "bound (finish g m) = False"
  "has_won (finish g m) = has_won g" "swept (finish g m) = swept g"
  "undiscovered_squares (finish g m) = undiscovered_squares g"
  "activated_squares (finish g m) = activated_squares g"
  "marked_squares (finish g m) = marked_squares g"
  "mine_squares (finish g m) = mine_squares g"
  "size (finish g m) = size g" "images (finish g m) = images g"
  by (simp_all add: finish_def swept_def hidden_free_def)

lemma note_win_simps [simp]:
  "undiscovered_squares (note_win ed g) = undiscovered_squares g"
  "ed = Timed \<Longrightarrow> has_won (note_win ed g)"
  by (cases ed; simp add: note_win_def)+

lemma adjacent_loop_swept:
  assumes "swept g" and "activated_squares g \<noteq> []"
  shows "adjacent_loop n ed drawn g cs = Some r \<Longrightarrow> r = Returned g"
proof (induction cs)
  case Nil
  then show ?case by simp
next
  case (Cons p cs)
  obtain x y where p: "p = (x, y)" by (cases p)
  show ?case
  proof (cases "get_square g x y \<in> set (activated_squares g) \<or> get_square g x y = None")
    case True
    with Cons show ?thesis by (auto simp: p Let_def split: if_splits)
  next
    case False
    then obtain i where i: "get_square g x y = Some i"
      and hid: "Some i \<notin> set (activated_squares g)" by auto
    from i have "i < size g * size g" by (rule get_square_less)
    with assms(1) hid have m: "Some i \<in> set (marked_squares g)"
      by (auto simp: swept_def hidden_free_def)
    from Cons.prems hid i
    have run: "then_run (activate_square n ed drawn g x y True)
        (\<lambda>g. adjacent_loop n ed drawn g cs) = Some r"
      by (simp add: p Let_def)
    then obtain k where n: "n = Suc k" by (cases n) auto
    have "activate_square n ed drawn g x y True = Some (Returned g)"
      unfolding n using m
      by (simp add: activate_square_in_grid [OF prepare_started [OF assms(2)] i])
    with run Cons.IH show ?thesis by simp
  qed
qed

lemma cascade_post_refl: "cascade_post ed g g"
  by (simp add: cascade_post_def)

lemma cascade_post_trans:
  assumes "uncovers g g1" "g1 = g \<or> 0 < undiscovered_squares g1" "cascade_post ed g1 g'"
  shows "cascade_post ed g g'"
proof -
  from assms(3) consider
    (quiet) "uncovers g1 g'" "g' = g1 \<or> 0 < undiscovered_squares g'"
  | (won) "won ed g'" "steps False g1 g'"
    unfolding cascade_post_def by blast
  then show ?thesis
  proof cases
    case quiet
    with assms(1,2) show ?thesis
      unfolding cascade_post_def by (auto intro: rtranclp_trans)
  next
    case won
    from uncovers_steps [OF assms(1)] won(2) have "steps False g g'"
      by (rule rtranclp_trans)
    with won(1) show ?thesis by (simp add: cascade_post_def)
  qed
qed

lemma uncovers_facts:
  assumes "uncovers g g'" "well_formed g" "activated_squares g \<noteq> []"
  shows "well_formed g'" "activated_squares g' \<noteq> []" "mine_squares g' = mine_squares g"
    "get_square g' x y = get_square g x y" "in_progress g' = in_progress g"
    "size g' = size g" "marked_squares g' = marked_squares g"
proof -
  note st = uncovers_steps [OF assms(1), where c = False]
  from st assms(2) show "well_formed g'" by (rule steps_well_formed)
  from st assms(3) show "activated_squares g' \<noteq> []" by (rule steps_started)
  from steps_same_board [OF st] show "mine_squares g' = mine_squares g" "size g' = size g"
    "marked_squares g' = marked_squares g"
    by (simp_all add: same_board_def)
  from st show "get_square g' x y = get_square g x y" by (rule steps_get_square)
  from assms(1) show "in_progress g' = in_progress g" by (rule uncovers_in_progress)
qed

lemma adjacent_loop_cascade:
  assumes rec: "cascade_ok n ed drawn"
  shows "well_formed g \<Longrightarrow> activated_squares g \<noteq> [] \<Longrightarrow> in_progress g \<Longrightarrow>
     \<forall>(x, y) \<in> set cs. \<forall>j. get_square g x y = Some j \<longrightarrow>
        Some j \<in> set (activated_squares g) \<or> Some j \<notin> set (mine_squares g) \<Longrightarrow>
     adjacent_loop n ed drawn g cs = Some r \<Longrightarrow>
     \<exists>g'. r = Returned g' \<and> cascade_post ed g g'"
proof (induction cs arbitrary: g)
  case Nil
  then show ?case by (auto simp: cascade_post_refl)
next
  case (Cons p cs)
  obtain x y where p: "p = (x, y)" by (cases p)
  from Cons.prems(4) have safe_tl: "\<forall>(x, y) \<in> set cs. \<forall>j. get_square g x y = Some j \<longrightarrow>
        Some j \<in> set (activated_squares g) \<or> Some j \<notin> set (mine_squares g)"
    by simp
  show ?case
  proof (cases "get_square g x y \<in> set (activated_squares g) \<or> get_square g x y = None")
    case True
    with Cons.prems(5) have "adjacent_loop n ed drawn g cs = Some r"
      by (auto simp: p Let_def split: if_splits)
    from Cons.IH [OF Cons.prems(1-3) safe_tl this] show ?thesis .
  next
    case False
    then obtain i where i: "get_square g x y = Some i"
      and hid: "Some i \<notin> set (activated_squares g)" by auto
    with Cons.prems(4) have safe: "Some i \<notin> set (mine_squares g)" by (auto simp: p)
    from Cons.prems(5) hid i
    have run: "then_run (activate_square n ed drawn g x y True)
        (\<lambda>g. adjacent_loop n ed drawn g cs) = Some r"
      by (simp add: p Let_def)
    then obtain r1 where r1: "activate_square n ed drawn g x y True = Some r1"
      by (auto simp: then_run_Some)
    with rec Cons.prems(1-3) i hid safe obtain g1 where
      g1: "r1 = Returned g1" "cascade_post ed g g1"
      unfolding cascade_ok_def by blast
    from run r1 g1(1) have rest: "adjacent_loop n ed drawn g1 cs = Some r" by simp
    from g1(2) consider
      (quiet) "uncovers g g1" "g1 = g \<or> 0 < undiscovered_squares g1"
    | (won) "won ed g1" "steps False g g1"
      unfolding cascade_post_def by blast
    then show ?thesis
    proof cases
      case quiet
      note f = uncovers_facts [OF quiet(1) Cons.prems(1,2)]
      from uncovers_steps [OF quiet(1), where c = False]
      have grow: "set (activated_squares g) \<subseteq> set (activated_squares g1)"
        by (rule steps_activated)
      have "\<forall>(x, y) \<in> set cs. \<forall>j. get_square g1 x y = Some j \<longrightarrow>
        Some j \<in> set (activated_squares g1) \<or> Some j \<notin> set (mine_squares g1)"
        using safe_tl grow unfolding f(3) f(4) by fast
      from Cons.IH [OF f(1,2) _ this rest] f(5) Cons.prems(3)
      obtain g' where "r = Returned g'" "cascade_post ed g1 g'" by auto
      with cascade_post_trans [OF quiet] show ?thesis by blast
    next
      case won
      then have "swept g1" by (simp add: won_def)
      moreover from won(2) Cons.prems(2) have "activated_squares g1 \<noteq> []"
        by (rule steps_started)
      ultimately have "r = Returned g1" using rest by (rule adjacent_loop_swept)
      with g1(2) show ?thesis by blast
    qed
  qed
qed

lemma win_fires_in_progress:
  "in_progress g \<Longrightarrow> win_fires ed g \<longleftrightarrow> undiscovered_squares g \<le> 0"
  by (simp add: win_fires_def in_progress_def)

lemma end_game_won:
  assumes wf: "well_formed g" and started: "activated_squares g \<noteq> []"
    and low: "undiscovered_squares g \<le> 0"
    and run: "end_game n ed drawn (note_win ed g) (win_message ed) = Some r"
  shows "\<exists>g'. r = Returned g' \<and> won ed g' \<and> steps False g g'"
proof -
  from wf started have "well_formed (note_win ed g)" "activated_squares (note_win ed g) \<noteq> []"
    by (simp_all add: note_win_same)
  from end_game_traced [OF reveal_traced_all this run]
  obtain g' where g': "r = Returned (finish g' (win_message ed))"
    "steps False (note_win ed g) g'" "swept g'" by blast
  from steps_counter_le [OF g'(2)] low have "undiscovered_squares g' \<le> 0" by simp
  moreover have "has_won g'" if "ed = Timed"
    using steps_has_won [OF g'(2)] that by simp
  ultimately have "won ed (finish g' (win_message ed))"
    using g'(3) by (simp add: won_def)
  moreover from g'(3) have "step False g' (finish g' (win_message ed))" by (rule step.finish)
  with note_win_steps [of False g ed] g'(2)
  have "steps False g (finish g' (win_message ed))"
    by (meson rtranclp.rtrancl_into_rtrancl rtranclp_trans)
  ultimately show ?thesis using g'(1) by blast
qed

lemma check_win_cascade:
  assumes wf: "well_formed g" and started: "activated_squares g \<noteq> []"
    and post: "cascade_post ed g0 g" and prog: "in_progress g0"
    and run: "check_win n ed drawn g = Some r"
  shows "\<exists>g'. r = Returned g' \<and>
     (uncovers g0 g' \<and> 0 < undiscovered_squares g' \<or> won ed g' \<and> steps False g0 g')"
proof -
  from post consider
    (quiet) "uncovers g0 g" "g = g0 \<or> 0 < undiscovered_squares g"
  | (won) "won ed g" "steps False g0 g"
    unfolding cascade_post_def by blast
  then show ?thesis
  proof cases
    case quiet
    with prog have p: "in_progress g" by (simp add: uncovers_in_progress)
    show ?thesis
    proof (cases "undiscovered_squares g \<le> 0")
      case True
      with run p have "end_game n ed drawn (note_win ed g) (win_message ed) = Some r"
        by (simp add: check_win_eq win_fires_in_progress)
      from end_game_won [OF wf started True this]
      obtain g' where g': "r = Returned g'" "won ed g'" "steps False g g'" by blast
      from uncovers_steps [OF quiet(1)] g'(3) have "steps False g0 g'"
        by (rule rtranclp_trans)
      with g'(1,2) show ?thesis by auto
    next
      case False
      with run p have "r = Returned g"
        by (simp add: check_win_eq win_fires_in_progress)
      with quiet False show ?thesis by auto
    qed
  next
    case won
    show ?thesis
    proof (cases "win_fires ed g")
      case True
      with run have "end_game n ed drawn (note_win ed g) (win_message ed) = Some r"
        by (simp add: check_win_eq)
      moreover from won(1) have "undiscovered_squares g \<le> 0" by (simp add: won_def)
      ultimately obtain g' where g': "r = Returned g'" "won ed g'" "steps False g g'"
        using end_game_won [OF wf started] by blast
      from won(2) g'(3) have "steps False g0 g'" by (rule rtranclp_trans)
      with g'(1,2) show ?thesis by auto
    next
      case False
      with run have "r = Returned g" by (simp add: check_win_eq)
      with won show ?thesis by auto
    qed
  qed
qed

lemma window_centre:
  assumes "i < size g * size g" "(x, y) \<in> set (window (int (i mod size g)) (int (i div size g)))"
    "get_square g x y = Some j" "adjacent_mines g i = 0" "Some i \<notin> set (mine_squares g)"
  shows "Some j \<notin> set (mine_squares g)"
  using adjacent_mines_zero [OF assms(4,2,3)] assms(5) by (cases "j = i") auto

lemma uncover_same [simp]:
  "size (uncover g i) = size g" "mine_squares (uncover g i) = mine_squares g"
  "marked_squares (uncover g i) = marked_squares g"
  "activated_squares (uncover g i) = activated_squares g @ [Some i]"
  "undiscovered_squares (uncover g i) = undiscovered_squares g - 1"
  "ending_text (uncover g i) = ending_text g" "bound (uncover g i) = bound g"
  "has_won (uncover g i) = has_won g" "mines_label (uncover g i) = mines_label g"
  "undiscovered_mines (uncover g i) = undiscovered_mines g"
  by (simp_all add: uncover_def)

lemma cascade_ok_all: "cascade_ok n ed drawn"
proof (induction n)
  case 0
  show ?case by (simp add: cascade_ok_def)
next
  case (Suc n)
  show ?case
    unfolding cascade_ok_def
  proof (intro allI impI)
    fix g x y i r
    assume wf: "well_formed g" and started: "activated_squares g \<noteq> []"
      and prog: "in_progress g" and sq: "get_square g x y = Some i"
      and hid: "Some i \<notin> set (activated_squares g)"
      and safe: "Some i \<notin> set (mine_squares g)"
      and run: "activate_square (Suc n) ed drawn g x y True = Some r"
    from sq have i: "i < size g * size g" by (rule get_square_less)
    note eq = activate_square_in_grid [OF prepare_started [OF started] sq,
        where n = n and ed = ed and c = True and drawn = drawn]
    show "\<exists>g'. r = Returned g' \<and> cascade_post ed g g'"
    proof (cases "Some i \<in> set (marked_squares g)")
      case True
      with run show ?thesis by (auto simp: eq cascade_post_refl)
    next
      case False
      with hid i have hf: "hidden_free g i" by (simp add: hidden_free_def)
      let ?g1 = "uncover g i"
      from hf safe have u1: "uncovering g ?g1" by (auto simp: uncovering_def)
      then have us1: "uncovers g ?g1" by (rule r_into_rtranclp)
      note f1 = uncovers_facts [OF us1 wf started]
      from prog f1(5) have prog1: "in_progress ?g1" by simp
      let ?adj = "if adjacent_mines g i = 0
           then activate_adjacent_squares n ed drawn ?g1 (Some i)
           else Some (Returned ?g1)"
      from run False hid safe
      have rest: "then_run ?adj (\<lambda>g. check_win n ed drawn g) = Some r"
        by (simp add: eq)
      then obtain r2 where r2: "?adj = Some r2" by (auto simp: then_run_Some)
      have "\<exists>g2. r2 = Returned g2 \<and> cascade_post ed ?g1 g2"
      proof (cases "adjacent_mines g i = 0")
        case True
        with r2 i have loop: "adjacent_loop n ed drawn ?g1
            (window (int (i mod size g)) (int (i div size g))) = Some r2"
          by (simp add: activate_adjacent_squares_in_grid)
        have "\<forall>(x, y) \<in> set (window (int (i mod size g)) (int (i div size g))).
            \<forall>j. get_square ?g1 x y = Some j \<longrightarrow>
              Some j \<in> set (activated_squares ?g1) \<or> Some j \<notin> set (mine_squares ?g1)"
          using window_centre [OF i _ _ True safe] by (auto simp: f1(4))
        from adjacent_loop_cascade [OF Suc f1(1,2) prog1 this loop] show ?thesis .
      next
        case False
        with r2 show ?thesis by (auto simp: cascade_post_refl)
      qed
      then obtain g2 where g2: "r2 = Returned g2" "cascade_post ed ?g1 g2" by blast
      from g2(2) have st2: "steps False ?g1 g2"
        by (auto simp: cascade_post_def dest: uncovers_steps)
      from st2 f1(1,2) have wf2: "well_formed g2" and started2: "activated_squares g2 \<noteq> []"
        by (auto dest: steps_well_formed steps_started)
      from rest r2 g2(1) have "check_win n ed drawn g2 = Some r" by simp
      from check_win_cascade [OF wf2 started2 g2(2) prog1 this]
      obtain g' where g': "r = Returned g'"
        "uncovers ?g1 g' \<and> 0 < undiscovered_squares g' \<or> won ed g' \<and> steps False ?g1 g'"
        by blast
      from g'(2) consider
        (quiet) "uncovers ?g1 g'" "0 < undiscovered_squares g'"
      | (won) "won ed g'" "steps False ?g1 g'"
        by blast
      then have "cascade_post ed g g'"
      proof cases
        case quiet
        from us1 quiet(1) have us: "uncovers g g'" by (rule rtranclp_trans)
        with quiet(2) show ?thesis by (simp add: cascade_post_def)
      next
        case won
        from u1 have "step False g ?g1" by (rule uncovering_step)
        from this won(2) have "steps False g g'" by (rule converse_rtranclp_into_rtranclp)
        with won(1) show ?thesis by (simp add: cascade_post_def)
      qed
      with g'(1) show ?thesis by blast
    qed
  qed
qed

lemma window_set:
  "set (window row column) = {row - 1, row, row + 1} \<times> {column - 1, column, column + 1}"
  unfolding window_def by (simp add: insert_commute)

lemma near_iff: "\<bar>x - r\<bar> \<le> 1 \<longleftrightarrow> x = r - 1 \<or> x = r \<or> x = r + 1" for x r :: int
  by arith

lemma window_iff: "(x, y) \<in> set (window row column) \<longleftrightarrow> \<bar>x - row\<bar> \<le> 1 \<and> \<bar>y - column\<bar> \<le> 1"
  unfolding window_set near_iff by blast

lemma get_square_coordinates:
  assumes "get_square g x y = Some j"
  shows "int (j mod size g) = x" "int (j div size g) = y"
proof -
  from assms have x: "0 \<le> x" "x < int (size g)" and y: "0 \<le> y" "y < int (size g)"
    and j: "j = nat (y * int (size g) + x)"
    by (simp_all add: get_square_Some)
  define a b where "a = nat x" and "b = nat y"
  with x y have ab: "x = int a" "y = int b" "a < size g" "b < size g" by simp_all
  with j have "j = b * size g + a"
    by (simp flip: of_nat_mult of_nat_add)
  with ab show "int (j mod size g) = x" "int (j div size g) = y" by simp_all
qed

lemma get_square_index:
  assumes "j < size g * size g"
  shows "get_square g (int (j mod size g)) (int (j div size g)) = Some j"
proof -
  from assms have pos: "0 < size g" by (cases "size g") auto
  from assms pos have y: "j div size g < size g" by (simp add: less_mult_imp_div_less)
  then show ?thesis
    using pos by (simp add: get_square_def linorder_not_le flip: of_nat_mult of_nat_add)
qed

lemma window_neighbours:
  assumes "i < size g * size g"
  shows "{j. \<exists>(x, y) \<in> set (window (int (i mod size g)) (int (i div size g))).
              get_square g x y = Some j} = insert i (neighbours g i)"
proof (intro set_eqI iffI)
  fix j
  assume "j \<in> {j. \<exists>(x, y) \<in> set (window (int (i mod size g)) (int (i div size g))).
              get_square g x y = Some j}"
  then obtain x y where w: "(x, y) \<in> set (window (int (i mod size g)) (int (i div size g)))"
    and sq: "get_square g x y = Some j" by auto
  from sq have "j < size g * size g" by (rule get_square_less)
  with w get_square_coordinates [OF sq] show "j \<in> insert i (neighbours g i)"
    by (auto simp: neighbours_def window_iff)
next
  fix j
  assume "j \<in> insert i (neighbours g i)"
  with assms have j: "j < size g * size g"
    and near: "\<bar>int (j mod size g) - int (i mod size g)\<bar> \<le> 1"
      "\<bar>int (j div size g) - int (i div size g)\<bar> \<le> 1"
    by (auto simp: neighbours_def)
  from near have "(int (j mod size g), int (j div size g)) \<in>
      set (window (int (i mod size g)) (int (i div size g)))"
    by (simp add: window_iff)
  with get_square_index [OF j]
  show "j \<in> {j. \<exists>(x, y) \<in> set (window (int (i mod size g)) (int (i div size g))).
              get_square g x y = Some j}"
    by blast
qed

lemma adjacent_mines_zero_neighbours:
  assumes "i < size g * size g" "adjacent_mines g i = 0" "j \<in> neighbours g i"
  shows "Some j \<notin> set (mine_squares g)"
proof -
  from assms(3) window_neighbours [OF assms(1)]
  obtain x y where "(x, y) \<in> set (window (int (i mod size g)) (int (i div size g)))"
    "get_square g x y = Some j" by blast
  moreover from assms(3) have "j \<noteq> i" by (simp add: neighbours_def)
  ultimately show ?thesis using adjacent_mines_zero [OF assms(2)] by blast
qed

lemma adjacent_flags_zero_neighbours:
  assumes "i < size g * size g" "adjacent_flags g i = 0" "j \<in> neighbours g i"
  shows "Some j \<notin> set (marked_squares g)"
proof -
  from assms(3) window_neighbours [OF assms(1)]
  obtain x y where w: "(x, y) \<in> set (window (int (i mod size g)) (int (i div size g)))"
    and sq: "get_square g x y = Some j" by blast
  from assms(3) have ne: "j \<noteq> i" by (simp add: neighbours_def)
  from assms(2) have "\<forall>p \<in> set (window (int (i mod size g)) (int (i div size g))).
      \<not> (case p of (x, y) \<Rightarrow> get_square g x y \<noteq> Some i \<and>
                          get_square g x y \<in> set (marked_squares g))"
    unfolding adjacent_flags_filter by (simp only: length_0_conv filter_empty_conv)
  with w sq ne show ?thesis by fastforce
qed

lemma chord_reveals_neighbours:
  assumes wf: "well_formed g" and sq: "get_square g x y = Some i"
    and act: "Some i \<in> set (activated_squares g)"
    and same: "adjacent_mines g i = adjacent_flags g i"
    and run: "activate_square (Suc n) ed drawn g x y c = Some r"
  shows "activate_square (Suc n) ed drawn g x y c = activate_adjacent_squares n ed drawn g (Some i)"
    and "\<exists>g'. r = Returned g' \<and> steps True g g' \<and>
       (\<forall>j \<in> neighbours g i. Some j \<in> set (marked_squares g) \<or>
           Some j \<in> set (activated_squares g'))"
proof -
  from act have started: "activated_squares g \<noteq> []" by auto
  from sq have i: "i < size g * size g" by (rule get_square_less)
  from wf act have "Some i \<notin> set (marked_squares g)" by (auto simp: well_formed_def)
  with act same
  show eq: "activate_square (Suc n) ed drawn g x y c =
      activate_adjacent_squares n ed drawn g (Some i)"
    by (simp add: activate_square_in_grid [OF prepare_started [OF started] sq])
  with run have "adjacent_loop n ed drawn g
      (window (int (i mod size g)) (int (i div size g))) = Some r"
    by (simp add: activate_adjacent_squares_in_grid [OF i])
  from adjacent_loop_traced [OF reveal_traced_all wf started this]
  obtain g' where g': "r = Returned g'" "steps True g g'"
    and all: "\<forall>(x, y) \<in> set (window (int (i mod size g)) (int (i div size g))).
       \<forall>j. get_square g x y = Some j \<longrightarrow>
          Some j \<in> set (marked_squares g) \<or> Some j \<in> set (activated_squares g')"
    by blast
  have "\<forall>j \<in> neighbours g i. Some j \<in> set (marked_squares g) \<or>
           Some j \<in> set (activated_squares g')"
  proof
    fix j assume "j \<in> neighbours g i"
    with window_neighbours [OF i]
    obtain x y where "(x, y) \<in> set (window (int (i mod size g)) (int (i div size g)))"
      "get_square g x y = Some j" by blast
    with all show "Some j \<in> set (marked_squares g) \<or> Some j \<in> set (activated_squares g')"
      by blast
  qed
  with g' show "\<exists>g'. r = Returned g' \<and> steps True g g' \<and>
       (\<forall>j \<in> neighbours g i. Some j \<in> set (marked_squares g) \<or>
           Some j \<in> set (activated_squares g'))"
    by blast
qed

lemma cascade_post_text:
  assumes "cascade_post ed g g'" "in_progress g"
  shows "ending_text g' = [] \<and> in_progress g' \<or> ending_text g' = win_message ed \<and> won ed g'"
  using assms uncovers_in_progress [of g g']
  by (auto simp: cascade_post_def in_progress_def won_def)

text \<open>
  C10. A left click on a revealed square takes the chord branch whatever the count of that
  square is. On a revealed square with no mine and no flag around it, in a game in
  progress, the click is the neighbour loop of a reveal: it returns, every neighbour of
  the square is revealed afterwards (a hidden one, for example one that carried a flag
  during the first cascade and lost it since, is revealed now), and the game is still in
  progress or won.
\<close>

theorem chord_on_blank_square:
  assumes "well_formed g" and "in_progress g"
    and "get_square g x y = Some i" and "Some i \<in> set (activated_squares g)"
    and "adjacent_mines g i = 0" and "adjacent_flags g i = 0"
  shows "left_click ed drawn g x y =
       activate_adjacent_squares (size g * size g + 1) ed drawn g (Some i) \<and>
     (\<exists>g'. left_click ed drawn g x y = Some (Returned g') \<and>
        (\<forall>j \<in> neighbours g i. Some j \<in> set (activated_squares g')) \<and>
        (ending_text g' = [] \<or> ending_text g' = win_message ed))"
proof -
  from assms(4) have started: "activated_squares g \<noteq> []" by auto
  from assms(3) have i: "i < size g * size g" by (rule get_square_less)
  from assms(2,3) have lc: "left_click ed drawn g x y =
      activate_square (Suc (size g * size g + 1)) ed drawn g x y True"
    by (simp add: left_click_def in_progress_def depth_bound_Suc)
  obtain r where r: "activate_square (Suc (size g * size g + 1)) ed drawn g x y True = Some r"
    using activate_square_returns [of g ed drawn x y True] by (auto simp: depth_bound_Suc)
  from assms(5,6) have same: "adjacent_mines g i = adjacent_flags g i" by simp
  note ch = chord_reveals_neighbours [OF assms(1,3,4) same r]
  from ch(2) obtain g' where g': "r = Returned g'"
    and nb: "\<forall>j \<in> neighbours g i. Some j \<in> set (marked_squares g) \<or>
           Some j \<in> set (activated_squares g')" by blast
  from nb adjacent_flags_zero_neighbours [OF i assms(6)]
  have all: "\<forall>j \<in> neighbours g i. Some j \<in> set (activated_squares g')" by blast
  from r ch(1) have "adjacent_loop (size g * size g + 1) ed drawn g
      (window (int (i mod size g)) (int (i div size g))) = Some r"
    by (simp add: activate_adjacent_squares_in_grid [OF i])
  moreover have "\<forall>(x, y) \<in> set (window (int (i mod size g)) (int (i div size g))).
      \<forall>j. get_square g x y = Some j \<longrightarrow>
        Some j \<in> set (activated_squares g) \<or> Some j \<notin> set (mine_squares g)"
    using adjacent_mines_zero [OF assms(5)] assms(4) by blast
  ultimately obtain g'' where "r = Returned g''" "cascade_post ed g g''"
    using adjacent_loop_cascade [OF cascade_ok_all assms(1) started assms(2)] by blast
  with g' cascade_post_text [OF _ assms(2)]
  have "ending_text g' = [] \<or> ending_text g' = win_message ed" by auto
  moreover from lc ch(1) have "left_click ed drawn g x y =
       activate_adjacent_squares (size g * size g + 1) ed drawn g (Some i)" by simp
  moreover from lc r g' have "left_click ed drawn g x y = Some (Returned g')" by simp
  ultimately show ?thesis using all by blast
qed

theorem chord_on_blank_square_witness:
  "well_formed blank_corner \<and> in_progress blank_corner \<and>
   get_square blank_corner 0 0 = Some 0 \<and>
   Some 0 \<in> set (activated_squares blank_corner) \<and>
   adjacent_mines blank_corner 0 = 0 \<and> adjacent_flags blank_corner 0 = 0 \<and>
   Some 1 \<notin> set (activated_squares blank_corner) \<and>
   (\<exists>g'. left_click Basic [] blank_corner 0 0 = Some (Returned g') \<and>
      Some 1 \<in> set (activated_squares g') \<and> Some 10 \<in> set (activated_squares g') \<and>
      Some 11 \<in> set (activated_squares g'))"
proof -
  have h: "well_formed blank_corner" "in_progress blank_corner"
    "get_square blank_corner 0 0 = Some 0"
    "Some 0 \<in> set (activated_squares blank_corner)"
    "adjacent_mines blank_corner 0 = 0" "adjacent_flags blank_corner 0 = 0"
    by (simp_all add: blank_corner_def well_formed_def in_progress_def get_square_def
          adjacent_mines_def adjacent_flags_def window_def)
  have n: "1 \<in> neighbours blank_corner 0" "10 \<in> neighbours blank_corner 0"
    "11 \<in> neighbours blank_corner 0"
    by (simp_all add: neighbours_def blank_corner_def)
  have "Some 1 \<notin> set (activated_squares blank_corner)" by (simp add: blank_corner_def)
  with chord_on_blank_square [OF h, of Basic "[]"] h n show ?thesis by blast
qed

lemma finite_safe_hidden: "finite (safe_hidden g)"
  by (simp add: safe_hidden_def)

lemma step_surplus:
  "step c g g' \<Longrightarrow>
     undiscovered_squares g' - int (card (safe_hidden g')) =
     undiscovered_squares g - int (card (safe_hidden g))"
proof (induction rule: step.induct)
  case (uncover g i)
  then have i: "i \<in> safe_hidden g" by (simp add: safe_hidden_def hidden_free_def)
  have "safe_hidden (uncover g i) = safe_hidden g - {i}"
    by (auto simp: safe_hidden_def)
  moreover from i finite_safe_hidden [of g] have "0 < card (safe_hidden g)"
    by (auto simp: card_gt_0_iff)
  ultimately have "int (card (safe_hidden (uncover g i))) = int (card (safe_hidden g)) - 1"
    using i by (simp add: card_Diff_singleton of_nat_diff)
  then show ?case by simp
next
  case (explode g i img)
  then have "safe_hidden (explode g i img) = safe_hidden g"
    by (auto simp: safe_hidden_def explode_def)
  then show ?case by (simp add: explode_def)
next
  case (finish g message)
  show ?case by (simp add: safe_hidden_def finish_def)
next
  case (note_win g)
  show ?case by (simp add: safe_hidden_def)
qed

lemma steps_surplus:
  "steps c g g' \<Longrightarrow>
     undiscovered_squares g' - int (card (safe_hidden g')) =
     undiscovered_squares g - int (card (safe_hidden g))"
  by (induction rule: rtranclp_induct) (auto dest: step_surplus)

lemma uncovers_mine_hidden:
  "uncovers g g' \<Longrightarrow> Some j \<in> set (mine_squares g) \<Longrightarrow>
     Some j \<in> set (activated_squares g') \<Longrightarrow> Some j \<in> set (activated_squares g)"
proof (induction rule: rtranclp_induct)
  case base
  then show ?case by simp
next
  case (step g1 g2)
  from step.hyps(1) have "mine_squares g1 = mine_squares g"
    using steps_same_board [OF uncovers_steps [OF step.hyps(1), where c = False]]
    by (simp add: same_board_def)
  with step show ?case by (auto simp: uncovering_def)
qed

lemma filter_length_split:
  "\<forall>y \<in> set xs. Q y \<longrightarrow> P y \<Longrightarrow>
     length (filter Q xs) + length (filter (\<lambda>x. P x \<and> \<not> Q x) xs) = length (filter P xs)"
  by (induction xs) auto

lemma filter_length_exchange:
  assumes "length (filter P xs) = length (filter Q xs)" and "\<exists>x \<in> set xs. P x \<and> \<not> Q x"
  shows "\<exists>y \<in> set xs. Q y \<and> \<not> P y"
proof (rule ccontr)
  assume "\<not> (\<exists>y \<in> set xs. Q y \<and> \<not> P y)"
  then have "\<forall>y \<in> set xs. Q y \<longrightarrow> P y" by blast
  from filter_length_split [OF this] assms(1)
  have "length (filter (\<lambda>x. P x \<and> \<not> Q x) xs) = 0" by simp
  then have "\<forall>x \<in> set xs. \<not> (P x \<and> \<not> Q x)"
    by (simp only: length_0_conv filter_empty_conv)
  with assms(2) show False by blast
qed

lemma misplaced_flag:
  assumes wf: "well_formed g" and i: "i < size g * size g"
    and same: "adjacent_mines g i = adjacent_flags g i"
    and mine: "j \<in> neighbours g i" "Some j \<in> set (mine_squares g)"
      "Some j \<notin> set (marked_squares g)"
  shows "\<exists>f. Some f \<in> set (marked_squares g) \<and> Some f \<notin> set (mine_squares g)"
proof -
  let ?w = "window (int (i mod size g)) (int (i div size g))"
  let ?M = "\<lambda>(x, y). get_square g x y \<noteq> Some i \<and> get_square g x y \<in> set (mine_squares g)"
  let ?F = "\<lambda>(x, y). get_square g x y \<noteq> Some i \<and> get_square g x y \<in> set (marked_squares g)"
  from mine(1) window_neighbours [OF i]
  obtain x y where w: "(x, y) \<in> set ?w" and sq: "get_square g x y = Some j" by blast
  from mine(1) have "j \<noteq> i" by (simp add: neighbours_def)
  with w sq mine(2,3) have "\<exists>p \<in> set ?w. ?M p \<and> \<not> ?F p" by force
  moreover from same have "length (filter ?M ?w) = length (filter ?F ?w)"
    by (simp only: adjacent_mines_filter adjacent_flags_filter)
  ultimately obtain q where "q \<in> set ?w" "?F q" "\<not> ?M q"
    using filter_length_exchange [of ?M ?w ?F] by blast
  then obtain a b where "get_square g a b \<in> set (marked_squares g)"
    "get_square g a b \<notin> set (mine_squares g)" by (cases q) auto
  moreover from this(1) wf obtain f where "get_square g a b = Some f"
    by (auto simp: well_formed_def)
  ultimately show ?thesis by auto
qed

lemma flagged_safe_blocks_win:
  assumes st: "steps c g g'" and wf: "well_formed g"
    and f: "Some f \<in> set (marked_squares g)" "Some f \<notin> set (mine_squares g)"
    and cover: "int (card (safe_hidden g)) \<le> undiscovered_squares g"
  shows "0 < undiscovered_squares g'" "int (card (safe_hidden g')) \<le> undiscovered_squares g'"
proof -
  from st wf have wf': "well_formed g'" by (rule steps_well_formed)
  from steps_same_board [OF st] have sb: "marked_squares g' = marked_squares g"
    "mine_squares g' = mine_squares g" "size g' = size g"
    by (simp_all add: same_board_def)
  from f wf' sb have "f \<in> safe_hidden g'"
    by (auto simp: safe_hidden_def well_formed_def)
  with finite_safe_hidden [of g'] have "0 < card (safe_hidden g')"
    by (auto simp: card_gt_0_iff)
  moreover from steps_surplus [OF st] cover
  show "int (card (safe_hidden g')) \<le> undiscovered_squares g'" by simp
  ultimately show "0 < undiscovered_squares g'" by simp
qed

lemma adjacent_loop_chord:
  shows "well_formed g \<Longrightarrow> activated_squares g \<noteq> [] \<Longrightarrow> in_progress g \<Longrightarrow>
     Some f \<in> set (marked_squares g) \<Longrightarrow> Some f \<notin> set (mine_squares g) \<Longrightarrow>
     int (card (safe_hidden g)) \<le> undiscovered_squares g \<Longrightarrow>
     adjacent_loop n ed drawn g cs = Some r \<Longrightarrow>
     \<exists>g'. r = Returned g' \<and>
       (uncovers g g' \<and>
          (\<forall>(x, y) \<in> set cs. \<forall>j. get_square g x y = Some j \<longrightarrow>
             \<not> (hidden_free g j \<and> Some j \<in> set (mine_squares g))) \<or>
        lost g' \<and> steps True g g')"
proof (induction cs arbitrary: g)
  case Nil
  then show ?case by auto
next
  case (Cons p cs)
  obtain x y where p: "p = (x, y)" by (cases p)
  note wf = Cons.prems(1) and started = Cons.prems(2) and prog = Cons.prems(3)
    and f = Cons.prems(4,5) and cover = Cons.prems(6) and run = Cons.prems(7)
  have continue: ?case
    if us: "uncovers g g1" and rest: "adjacent_loop n ed drawn g1 cs = Some r"
      and here: "\<forall>j. get_square g x y = Some j \<longrightarrow>
             \<not> (hidden_free g j \<and> Some j \<in> set (mine_squares g))" for g1
  proof -
    note u = uncovers_facts [OF us wf started]
    note st = uncovers_steps [OF us, where c = False]
    from prog u(5) have prog1: "in_progress g1" by simp
    from flagged_safe_blocks_win(2) [OF st wf f cover]
    have cover1: "int (card (safe_hidden g1)) \<le> undiscovered_squares g1" .
    from f u(3,7) have f1: "Some f \<in> set (marked_squares g1)"
      "Some f \<notin> set (mine_squares g1)" by simp_all
    from Cons.IH [OF u(1,2) prog1 f1 cover1 rest]
    obtain g' where g': "r = Returned g'"
      and post: "uncovers g1 g' \<and>
          (\<forall>(x, y) \<in> set cs. \<forall>j. get_square g1 x y = Some j \<longrightarrow>
             \<not> (hidden_free g1 j \<and> Some j \<in> set (mine_squares g1))) \<or>
        lost g' \<and> steps True g1 g'" by blast
    from post show ?thesis
    proof
      assume q: "uncovers g1 g' \<and>
          (\<forall>(x, y) \<in> set cs. \<forall>j. get_square g1 x y = Some j \<longrightarrow>
             \<not> (hidden_free g1 j \<and> Some j \<in> set (mine_squares g1)))"
      with us have "uncovers g g'" by (blast intro: rtranclp_trans)
      moreover have "\<not> (hidden_free g j \<and> Some j \<in> set (mine_squares g))"
        if "(a, b) \<in> set cs" "get_square g a b = Some j" for a b j
      proof
        assume h: "hidden_free g j \<and> Some j \<in> set (mine_squares g)"
        with uncovers_mine_hidden [OF us, of j] have "hidden_free g1 j"
          by (auto simp: hidden_free_def u(6,7))
        with q that h show False by (auto simp: u(3,4))
      qed
      ultimately show ?thesis using g' here by (auto simp: p)
    next
      assume "lost g' \<and> steps True g1 g'"
      with uncovers_steps [OF us, where c = True] g' show ?thesis
        by (blast intro: rtranclp_trans)
    qed
  qed
  show ?case
  proof (cases "get_square g x y \<in> set (activated_squares g) \<or> get_square g x y = None")
    case True
    with run have "adjacent_loop n ed drawn g cs = Some r"
      by (auto simp: p Let_def split: if_splits)
    moreover from True have "\<forall>j. get_square g x y = Some j \<longrightarrow>
             \<not> (hidden_free g j \<and> Some j \<in> set (mine_squares g))"
      by (auto simp: hidden_free_def)
    ultimately show ?thesis by (intro continue) auto
  next
    case False
    then obtain i where i: "get_square g x y = Some i"
      and hid: "Some i \<notin> set (activated_squares g)" by auto
    from i have ig: "i < size g * size g" by (rule get_square_less)
    from run hid i
    have run': "then_run (activate_square n ed drawn g x y True)
        (\<lambda>g. adjacent_loop n ed drawn g cs) = Some r"
      by (simp add: p Let_def)
    then obtain r1 where r1: "activate_square n ed drawn g x y True = Some r1"
      by (auto simp: then_run_Some)
    then obtain k where n: "n = Suc k" by (cases n) auto
    note eq = activate_square_in_grid [OF prepare_started [OF started] i,
        where n = k and ed = ed and c = True and drawn = drawn]
    show ?thesis
    proof (cases "Some i \<in> set (marked_squares g)")
      case True
      with r1 have "r1 = Returned g" by (simp add: n eq)
      with run' r1 have "adjacent_loop n ed drawn g cs = Some r" by simp
      moreover from True have "\<forall>j. get_square g x y = Some j \<longrightarrow>
             \<not> (hidden_free g j \<and> Some j \<in> set (mine_squares g))"
        by (auto simp: hidden_free_def i)
      ultimately show ?thesis by (intro continue) auto
    next
      case unmarked: False
      show ?thesis
      proof (cases "Some i \<in> set (mine_squares g)")
        case safe: False
        with cascade_ok_all [of n ed drawn] wf started prog i hid r1
        obtain g1 where g1: "r1 = Returned g1" "cascade_post ed g g1"
          unfolding cascade_ok_def by blast
        from g1(2) have st: "steps False g g1"
          by (auto simp: cascade_post_def dest: uncovers_steps)
        from flagged_safe_blocks_win(1) [OF st wf f cover]
        have "\<not> won ed g1" by (simp add: won_def)
        with g1(2) have us: "uncovers g g1" by (auto simp: cascade_post_def)
        from run' r1 g1(1) have "adjacent_loop n ed drawn g1 cs = Some r" by simp
        with us show ?thesis using safe by (intro continue) (auto simp: i)
      next
        case True
        let ?g1 = "explode g i 12"
        from unmarked hid ig have hf: "hidden_free g i" by (simp add: hidden_free_def)
        with True have s1: "step True g ?g1" by (intro step.explode) auto
        then have wf1: "well_formed ?g1" using wf by (rule step_well_formed)
        have st1: "activated_squares ?g1 \<noteq> []" by (simp add: explode_def)
        from r1 unmarked hid True
        have "end_game k ed drawn ?g1 ''You lose'' = Some r1" by (simp add: n eq)
        from end_game_traced [OF reveal_traced_all wf1 st1 this]
        obtain g2 where g2: "r1 = Returned (finish g2 ''You lose'')"
          "steps False ?g1 g2" "swept g2" by blast
        let ?g' = "finish g2 ''You lose''"
        from g2(3) have "step True g2 ?g'" by (rule step.finish)
        with s1 steps_quiet [OF g2(2), of True] have st: "steps True g ?g'"
          by (meson converse_rtranclp_into_rtranclp rtranclp.rtrancl_into_rtrancl)
        from g2(3) have l: "lost ?g'" by (simp add: lost_def)
        from st started have "activated_squares ?g' \<noteq> []" by (rule steps_started)
        moreover from l have "swept ?g'" by (simp add: lost_def)
        moreover from run' r1 g2(1) have "adjacent_loop n ed drawn ?g' cs = Some r" by simp
        ultimately have "r = Returned ?g'" by (intro adjacent_loop_swept)
        with l st show ?thesis by blast
      qed
    qed
  qed
qed

lemma adjacent_loop_cascade_flags:
  assumes rec: "cascade_ok n ed drawn"
  shows "well_formed g \<Longrightarrow> activated_squares g \<noteq> [] \<Longrightarrow> in_progress g \<Longrightarrow>
     \<forall>(x, y) \<in> set cs. \<forall>j. get_square g x y = Some j \<longrightarrow> hidden_free g j \<longrightarrow>
        Some j \<notin> set (mine_squares g) \<Longrightarrow>
     adjacent_loop n ed drawn g cs = Some r \<Longrightarrow>
     \<exists>g'. r = Returned g' \<and> cascade_post ed g g'"
proof (induction cs arbitrary: g)
  case Nil
  then show ?case by (auto simp: cascade_post_refl)
next
  case (Cons p cs)
  obtain x y where p: "p = (x, y)" by (cases p)
  from Cons.prems(4) have safe_tl: "\<forall>(x, y) \<in> set cs. \<forall>j. get_square g x y = Some j \<longrightarrow>
        hidden_free g j \<longrightarrow> Some j \<notin> set (mine_squares g)"
    by simp
  show ?case
  proof (cases "get_square g x y \<in> set (activated_squares g) \<or> get_square g x y = None")
    case True
    with Cons.prems(5) have "adjacent_loop n ed drawn g cs = Some r"
      by (auto simp: p Let_def split: if_splits)
    from Cons.IH [OF Cons.prems(1-3) safe_tl this] show ?thesis .
  next
    case False
    then obtain i where i: "get_square g x y = Some i"
      and hid: "Some i \<notin> set (activated_squares g)" by auto
    from i have ig: "i < size g * size g" by (rule get_square_less)
    from Cons.prems(5) hid i
    have run: "then_run (activate_square n ed drawn g x y True)
        (\<lambda>g. adjacent_loop n ed drawn g cs) = Some r"
      by (simp add: p Let_def)
    then obtain r1 where r1: "activate_square n ed drawn g x y True = Some r1"
      by (auto simp: then_run_Some)
    then obtain k where n: "n = Suc k" by (cases n) auto
    show ?thesis
    proof (cases "Some i \<in> set (marked_squares g)")
      case True
      with r1 have "r1 = Returned g"
        by (simp add: n activate_square_in_grid [OF prepare_started [OF Cons.prems(2)] i])
      with run r1 have "adjacent_loop n ed drawn g cs = Some r" by simp
      from Cons.IH [OF Cons.prems(1-3) safe_tl this] show ?thesis .
    next
      case False
      with hid ig have "hidden_free g i" by (simp add: hidden_free_def)
      with Cons.prems(4) i have safe: "Some i \<notin> set (mine_squares g)" by (auto simp: p)
      with rec Cons.prems(1-3) i hid r1 obtain g1 where
        g1: "r1 = Returned g1" "cascade_post ed g g1"
        unfolding cascade_ok_def by blast
      from run r1 g1(1) have rest: "adjacent_loop n ed drawn g1 cs = Some r" by simp
      from g1(2) consider
        (quiet) "uncovers g g1" "g1 = g \<or> 0 < undiscovered_squares g1"
      | (won) "won ed g1" "steps False g g1"
        unfolding cascade_post_def by blast
      then show ?thesis
      proof cases
        case quiet
        note f = uncovers_facts [OF quiet(1) Cons.prems(1,2)]
        from uncovers_steps [OF quiet(1), where c = False]
        have grow: "set (activated_squares g) \<subseteq> set (activated_squares g1)"
          by (rule steps_activated)
        have "\<forall>(x, y) \<in> set cs. \<forall>j. get_square g1 x y = Some j \<longrightarrow>
          hidden_free g1 j \<longrightarrow> Some j \<notin> set (mine_squares g1)"
          using safe_tl grow unfolding f(3) f(4) hidden_free_def f(6) f(7) by fast
        from Cons.IH [OF f(1,2) _ this rest] f(5) Cons.prems(3)
        obtain g' where "r = Returned g'" "cascade_post ed g1 g'" by auto
        with cascade_post_trans [OF quiet] show ?thesis by blast
      next
        case won
        then have "swept g1" by (simp add: won_def)
        moreover from won(2) Cons.prems(2) have "activated_squares g1 \<noteq> []"
          by (rule steps_started)
        ultimately have "r = Returned g1" using rest by (rule adjacent_loop_swept)
        with g1(2) show ?thesis by blast
      qed
    qed
  qed
qed

lemma step_fresh:
  "step c g g' \<Longrightarrow> activated_squares g' = [] \<Longrightarrow>
     activated_squares g = [] \<and> undiscovered_squares g' = undiscovered_squares g"
  by (induction rule: step.induct) (simp_all add: uncover_def explode_def finish_def)

lemma steps_fresh:
  "steps c g g' \<Longrightarrow> activated_squares g' = [] \<Longrightarrow>
     activated_squares g = [] \<and> undiscovered_squares g' = undiscovered_squares g"
  by (induction rule: rtranclp_induct) (auto dest: step_fresh)

lemma mined_surplus:
  assumes "is_sample (population g i) k drawn"
  shows "int (card (safe_hidden (mined g drawn))) \<le> int (size g * size g) - int k"
proof -
  let ?n = "size g * size g"
  from assms have d: "length drawn = k" "distinct drawn" "set drawn \<subseteq> {..<?n}"
    by (auto simp: is_sample_def population_def power2_eq_square)
  have "safe_hidden (mined g drawn) \<subseteq> {..<?n} - set drawn"
    by (auto simp: safe_hidden_def mined_def)
  then have "card (safe_hidden (mined g drawn)) \<le> card ({..<?n} - set drawn)"
    by (intro card_mono) auto
  also from d have "\<dots> = ?n - k"
    by (simp add: card_Diff_subset distinct_card)
  finally have "card (safe_hidden (mined g drawn)) \<le> ?n - k" .
  moreover from d have "k \<le> ?n"
    using card_mono [of "{..<?n}" "set drawn"] by (simp add: distinct_card)
  ultimately show ?thesis by linarith
qed

lemma left_click_accounted:
  assumes wf: "well_formed g" and acc: "accounted g"
    and smp: "\<forall>i. get_square g x y = Some i \<longrightarrow>
       is_sample (population g i) (undiscovered_mines g) drawn"
    and run: "left_click ed drawn g x y = Some (Returned g')"
  shows "accounted g'"
proof (cases "bound g \<and> get_square g x y \<noteq> None")
  case False
  with run acc show ?thesis by (auto simp: left_click_def)
next
  case True
  then obtain i where i: "get_square g x y = Some i" by auto
  with smp have s: "is_sample (population g i) (undiscovered_mines g) drawn" by simp
  from True run have "activate_square (depth_bound g) ed drawn g x y True = Some (Returned g')"
    by (simp add: left_click_def)
  from reveal_steps [OF wf i _ this] s
  have st: "steps True (prepared g drawn) g'" by auto
  note sb = steps_same_board [OF st]
  show ?thesis
  proof (cases "activated_squares g = []")
    case False
    with st have "activated_squares g' \<noteq> []"
      by (auto simp: prepared_def dest: steps_started)
    moreover from False acc steps_surplus [OF st]
    have "int (card (safe_hidden g')) \<le> undiscovered_squares g'"
      by (simp add: accounted_def prepared_def)
    ultimately show ?thesis by (simp add: accounted_def)
  next
    case fresh: True
    then have p: "prepared g drawn = mined g drawn" by (simp add: prepared_def)
    from fresh acc have c: "undiscovered_squares (mined g drawn) =
        int (size g * size g) - int (undiscovered_mines g)"
      by (simp add: accounted_def mined_def)
    show ?thesis
    proof (cases "activated_squares g' = []")
      case True
      with steps_fresh [OF st] c sb show ?thesis
        by (simp add: accounted_def p same_board_def mined_def)
    next
      case False
      from mined_surplus [OF s] c steps_surplus [OF st]
      have "int (card (safe_hidden g')) \<le> undiscovered_squares g'" by (simp add: p)
      with False show ?thesis by (simp add: accounted_def)
    qed
  qed
qed

lemma right_click_accounted:
  assumes "right_click g x y = Returned g'" "accounted g"
  shows "accounted g'"
proof (cases "bound g \<and> get_square g x y \<noteq> None")
  case False
  with assms show ?thesis by (auto simp: right_click_def)
next
  case True
  then obtain i where i: "get_square g x y = Some i" by auto
  with True assms(1) have "mark_square g x y = Returned g'" by (simp add: right_click_def)
  with assms(2) show ?thesis
    unfolding mark_square_in_grid [OF i]
    by (auto simp: accounted_def safe_hidden_def split: if_splits)
qed

lemma reachable_accounted: "reachable ed g \<Longrightarrow> accounted g"
proof (induction rule: reachable.induct)
  case (start mines)
  then show ?case by (simp add: accounted_def start_game_def)
next
  case (flag g x y g')
  then show ?case by (auto intro: right_click_accounted)
next
  case (reveal g x y drawn g')
  from reveal.hyps(1) have "well_formed g"
    using reachable_flags_ok by (auto simp: flags_ok_def)
  from left_click_accounted [OF this reveal.IH reveal.hyps(2,3)] show ?case .
qed

lemma left_click_plain:
  assumes "bound g" and sq: "get_square g x y = Some i"
    and smp: "activated_squares g = [] \<longrightarrow>
        is_sample (population g i) (undiscovered_mines g) drawn"
    and "Some i \<notin> set (marked_squares (prepared g drawn))"
    and "Some i \<notin> set (activated_squares (prepared g drawn))"
    and "Some i \<notin> set (mine_squares (prepared g drawn))"
    and "adjacent_mines (prepared g drawn) i \<noteq> 0"
    and "\<not> win_fires ed (uncover (prepared g drawn) i)"
  shows "left_click ed drawn g x y = Some (Returned (uncover (prepared g drawn) i))"
  using assms(1,2,4-8)
  by (simp add: left_click_def depth_bound_Suc check_win_eq
        activate_square_in_grid [OF prepare_in_grid [OF sq smp] sq])

lemma reachable_two_mines: "reachable ed two_mines"
proof -
  let ?g = "start_game 2"
  have s: "reachable ed ?g" by (rule reachable.start) simp
  have sq: "get_square ?g 0 0 = Some 0" by (simp add: get_square_def start_game_def)
  have smp: "is_sample (population ?g 0) (undiscovered_mines ?g) [1, 10]"
    by (simp add: is_sample_def population_def start_game_def)
  have p: "prepared ?g [1, 10] = mined ?g [1, 10]"
    by (simp add: prepared_def start_game_def)
  have bd: "bound ?g" by (simp add: start_game_def)
  have "left_click ed [1, 10] ?g 0 0 = Some (Returned (uncover (prepared ?g [1, 10]) 0))"
  proof (rule left_click_plain [OF bd sq])
    from smp show "activated_squares ?g = [] \<longrightarrow>
        is_sample (population ?g 0) (undiscovered_mines ?g) [1, 10]" ..
    show "Some 0 \<notin> set (marked_squares (prepared ?g [1, 10]))"
      "Some 0 \<notin> set (activated_squares (prepared ?g [1, 10]))"
      "Some 0 \<notin> set (mine_squares (prepared ?g [1, 10]))"
      "adjacent_mines (prepared ?g [1, 10]) 0 \<noteq> 0"
      "\<not> win_fires ed (uncover (prepared ?g [1, 10]) 0)"
      unfolding p
      by (simp_all add: start_game_def mined_def adjacent_mines_def window_def get_square_def
          win_fires_def uncover_def)
  qed
  then have run: "left_click ed [1, 10] ?g 0 0 = Some (Returned two_mines)"
    unfolding p two_mines_def .
  from sq smp have "\<forall>i. get_square ?g 0 0 = Some i \<longrightarrow>
       is_sample (population ?g i) (undiscovered_mines ?g) [1, 10]" by simp
  with s show ?thesis using run by (rule reachable.reveal)
qed

lemma reachable_wrong_flag: "reachable ed wrong_flag"
proof -
  define h where "h = two_mines\<lparr>marked_squares := [Some 11],
     images := (images two_mines)(11 := 11), mines_label := 1\<rparr>"
  have "right_click two_mines 1 1 = Returned h"
    by (simp add: h_def right_click_def mark_square_def get_square_def configure_def
          two_mines_def uncover_def mined_def start_game_def Let_def)
  with reachable_two_mines have "reachable ed h" by (rule reachable.flag)
  moreover have "right_click h 0 1 = Returned wrong_flag"
    by (simp add: h_def wrong_flag_def right_click_def mark_square_def get_square_def
          configure_def two_mines_def uncover_def mined_def start_game_def Let_def)
  ultimately show ?thesis by (rule reachable.flag)
qed

text \<open>
  C6. In every state a game can reach and that is in progress, a left click on a revealed
  square, whatever its count, compares the flags around it with the mines around it. If
  the numbers differ the click returns the state unchanged. If they are equal the click is
  the neighbour loop of a reveal, \<open>activate_square\<close> being called with
  \<open>check_adjacent\<close> true on each hidden neighbour: it returns, every neighbour without a
  flag is revealed afterwards, the game is lost if one of the hidden neighbours without a
  flag is a mine, and otherwise only safe squares were uncovered, the game being still in
  progress or won.
\<close>

theorem chording:
  assumes "reachable ed g" and "in_progress g"
    and "get_square g x y = Some i" and "Some i \<in> set (activated_squares g)"
  shows "(adjacent_flags g i \<noteq> adjacent_mines g i \<longrightarrow>
        left_click ed drawn g x y = Some (Returned g)) \<and>
     (adjacent_flags g i = adjacent_mines g i \<longrightarrow>
        left_click ed drawn g x y =
          activate_adjacent_squares (size g * size g + 1) ed drawn g (Some i) \<and>
        (\<exists>g'. left_click ed drawn g x y = Some (Returned g') \<and>
           (\<forall>j \<in> neighbours g i. Some j \<notin> set (marked_squares g) \<longrightarrow>
              Some j \<in> set (activated_squares g')) \<and>
           (if \<exists>j \<in> neighbours g i. hidden_free g j \<and> Some j \<in> set (mine_squares g)
            then ending_text g' = ''You lose'' \<and> \<not> bound g'
            else cascade_post ed g g')))"
proof (intro conjI impI)
  from assms(1) have wf: "well_formed g"
    using reachable_flags_ok by (auto simp: flags_ok_def)
  from assms(4) have started: "activated_squares g \<noteq> []" by auto
  from assms(1) started have cover: "int (card (safe_hidden g)) \<le> undiscovered_squares g"
    using reachable_accounted by (auto simp: accounted_def)
  from assms(3) have i: "i < size g * size g" by (rule get_square_less)
  from wf assms(4) have unmarked: "Some i \<notin> set (marked_squares g)"
    by (auto simp: well_formed_def)
  from assms(2,3) have lc: "left_click ed drawn g x y =
      activate_square (Suc (size g * size g + 1)) ed drawn g x y True"
    by (simp add: left_click_def in_progress_def depth_bound_Suc)
  note eq = activate_square_in_grid [OF prepare_started [OF started] assms(3),
      where n = "size g * size g + 1" and ed = ed and c = True and drawn = drawn]
  {
    assume "adjacent_flags g i \<noteq> adjacent_mines g i"
    with unmarked assms(4) show "left_click ed drawn g x y = Some (Returned g)"
      unfolding lc eq by auto
  }
  assume "adjacent_flags g i = adjacent_mines g i"
  then have same: "adjacent_mines g i = adjacent_flags g i" by simp
  obtain r where r: "activate_square (Suc (size g * size g + 1)) ed drawn g x y True = Some r"
    using activate_square_returns [of g ed drawn x y True] by (auto simp: depth_bound_Suc)
  note ch = chord_reveals_neighbours [OF wf assms(3,4) same r]
  from lc ch(1) show "left_click ed drawn g x y =
       activate_adjacent_squares (size g * size g + 1) ed drawn g (Some i)" by simp
  let ?w = "window (int (i mod size g)) (int (i div size g))"
  from r ch(1) have loop: "adjacent_loop (size g * size g + 1) ed drawn g ?w = Some r"
    by (simp add: activate_adjacent_squares_in_grid [OF i])
  from ch(2) obtain g' where g': "r = Returned g'"
    and nb: "\<forall>j \<in> neighbours g i. Some j \<in> set (marked_squares g) \<or>
           Some j \<in> set (activated_squares g')" by blast
  have "if \<exists>j \<in> neighbours g i. hidden_free g j \<and> Some j \<in> set (mine_squares g)
        then ending_text g' = ''You lose'' \<and> \<not> bound g' else cascade_post ed g g'"
  proof (cases "\<exists>j \<in> neighbours g i. hidden_free g j \<and> Some j \<in> set (mine_squares g)")
    case True
    then obtain j where j: "j \<in> neighbours g i" "hidden_free g j"
      "Some j \<in> set (mine_squares g)" by blast
    from j(2) have "Some j \<notin> set (marked_squares g)" by (simp add: hidden_free_def)
    from misplaced_flag [OF wf i same j(1,3) this]
    obtain f where f: "Some f \<in> set (marked_squares g)" "Some f \<notin> set (mine_squares g)"
      by blast
    from j(1) window_neighbours [OF i]
    obtain a b where ab: "(a, b) \<in> set ?w" "get_square g a b = Some j" by blast
    from adjacent_loop_chord [OF wf started assms(2) f cover loop] g'
    have "uncovers g g' \<and>
          (\<forall>(x, y) \<in> set ?w. \<forall>j. get_square g x y = Some j \<longrightarrow>
             \<not> (hidden_free g j \<and> Some j \<in> set (mine_squares g))) \<or>
        lost g' \<and> steps True g g'" by simp
    with ab j(2,3) have "lost g'" by blast
    with True show ?thesis by (simp add: lost_def)
  next
    case False
    have "\<forall>(a, b) \<in> set ?w. \<forall>j. get_square g a b = Some j \<longrightarrow> hidden_free g j \<longrightarrow>
        Some j \<notin> set (mine_squares g)"
    proof (intro ballI, clarify)
      fix a b j
      assume "(a, b) \<in> set ?w" "get_square g a b = Some j" "hidden_free g j"
        "Some j \<in> set (mine_squares g)"
      with window_neighbours [OF i] have "j \<in> insert i (neighbours g i)" by blast
      with \<open>hidden_free g j\<close> assms(4) have "j \<in> neighbours g i"
        by (auto simp: hidden_free_def)
      with False \<open>hidden_free g j\<close> \<open>Some j \<in> set (mine_squares g)\<close> show False by blast
    qed
    from adjacent_loop_cascade_flags [OF cascade_ok_all wf started assms(2) this loop] g'
    have "cascade_post ed g g'" by simp
    with False show ?thesis by auto
  qed
  with lc r g' nb show "\<exists>g'. left_click ed drawn g x y = Some (Returned g') \<and>
           (\<forall>j \<in> neighbours g i. Some j \<notin> set (marked_squares g) \<longrightarrow>
              Some j \<in> set (activated_squares g')) \<and>
           (if \<exists>j \<in> neighbours g i. hidden_free g j \<and> Some j \<in> set (mine_squares g)
            then ending_text g' = ''You lose'' \<and> \<not> bound g'
            else cascade_post ed g g')"
    by (intro exI [of _ g']) auto
qed

theorem chording_witness:
  "reachable Basic two_mines \<and> in_progress two_mines \<and>
   get_square two_mines 0 0 = Some 0 \<and> Some 0 \<in> set (activated_squares two_mines) \<and>
   adjacent_flags two_mines 0 \<noteq> adjacent_mines two_mines 0 \<and>
   left_click Basic [] two_mines 0 0 = Some (Returned two_mines) \<and>
   reachable Basic wrong_flag \<and> in_progress wrong_flag \<and>
   get_square wrong_flag 0 0 = Some 0 \<and> Some 0 \<in> set (activated_squares wrong_flag) \<and>
   adjacent_flags wrong_flag 0 = adjacent_mines wrong_flag 0 \<and>
   1 \<in> neighbours wrong_flag 0 \<and> hidden_free wrong_flag 1 \<and>
   Some 1 \<in> set (mine_squares wrong_flag) \<and>
   (\<exists>g'. left_click Basic [] wrong_flag 0 0 = Some (Returned g') \<and>
      Some 1 \<in> set (activated_squares g') \<and> ending_text g' = ''You lose'' \<and> \<not> bound g')"
proof -
  have a: "in_progress two_mines" "get_square two_mines 0 0 = Some 0"
    "Some 0 \<in> set (activated_squares two_mines)"
    by (simp_all add: two_mines_def uncover_def mined_def start_game_def in_progress_def
          get_square_def)
  have a': "adjacent_flags two_mines 0 \<noteq> adjacent_mines two_mines 0"
    by (simp add: two_mines_def uncover_def mined_def start_game_def adjacent_flags_def
          adjacent_mines_def window_def get_square_def)
  have b: "in_progress wrong_flag" "get_square wrong_flag 0 0 = Some 0"
    "Some 0 \<in> set (activated_squares wrong_flag)"
    by (simp_all add: wrong_flag_def two_mines_def uncover_def mined_def start_game_def
          in_progress_def get_square_def)
  have b': "adjacent_flags wrong_flag 0 = adjacent_mines wrong_flag 0"
    by (simp add: wrong_flag_def two_mines_def uncover_def mined_def start_game_def
          adjacent_flags_def adjacent_mines_def window_def get_square_def)
  have c: "1 \<in> neighbours wrong_flag 0" "hidden_free wrong_flag 1"
    "Some 1 \<in> set (mine_squares wrong_flag)" "Some 1 \<notin> set (marked_squares wrong_flag)"
    by (simp_all add: wrong_flag_def two_mines_def uncover_def mined_def start_game_def
          neighbours_def hidden_free_def)
  from chording [OF reachable_two_mines a, of Basic "[]"] a'
  have 1: "left_click Basic [] two_mines 0 0 = Some (Returned two_mines)" by simp
  from chording [OF reachable_wrong_flag b, of Basic "[]"] b' c
  have 2: "\<exists>g'. left_click Basic [] wrong_flag 0 0 = Some (Returned g') \<and>
      Some 1 \<in> set (activated_squares g') \<and> ending_text g' = ''You lose'' \<and> \<not> bound g'"
    by (auto split: if_splits)
  from reachable_two_mines reachable_wrong_flag a a' b b' c 1 2 show ?thesis by blast
qed

lemma step_appends: "step c g g' \<Longrightarrow> \<exists>rest. activated_squares g' = activated_squares g @ rest"
  by (induction rule: step.induct) (simp_all add: uncover_def explode_def finish_def)

lemma steps_appends: "steps c g g' \<Longrightarrow> \<exists>rest. activated_squares g' = activated_squares g @ rest"
proof (induction rule: rtranclp_induct)
  case base
  show ?case by simp
next
  case (step g1 g2)
  from step.IH obtain r1 where "activated_squares g1 = activated_squares g @ r1" by blast
  moreover from step_appends [OF step.hyps(2)]
  obtain r2 where "activated_squares g2 = activated_squares g1 @ r2" by blast
  ultimately show ?case by simp
qed

lemma step_image_kept:
  "step c g g' \<Longrightarrow> Some i \<in> set (activated_squares g) \<or> Some i \<in> set (marked_squares g) \<Longrightarrow>
     images g' i = images g i"
  by (induction rule: step.induct)
     (auto simp: uncover_def explode_def finish_def hidden_free_def)

lemma steps_image_kept:
  "steps c g g' \<Longrightarrow> Some i \<in> set (activated_squares g) \<or> Some i \<in> set (marked_squares g) \<Longrightarrow>
     images g' i = images g i"
proof (induction rule: rtranclp_induct)
  case base
  show ?case by simp
next
  case (step g1 g2)
  from step.hyps(1) have "set (activated_squares g) \<subseteq> set (activated_squares g1)"
    by (rule steps_activated)
  moreover from steps_same_board [OF step.hyps(1)]
  have "marked_squares g1 = marked_squares g" by (simp add: same_board_def)
  ultimately have "Some i \<in> set (activated_squares g1) \<or> Some i \<in> set (marked_squares g1)"
    using step.prems by auto
  from step_image_kept [OF step.hyps(2) this] step.IH [OF step.prems] show ?case by simp
qed

lemma left_click_mine:
  assumes wf: "well_formed g" and bd: "bound g" and sq: "get_square g x y = Some i"
    and smp: "activated_squares g = [] \<longrightarrow>
        is_sample (population g i) (undiscovered_mines g) drawn"
    and free: "hidden_free (prepared g drawn) i"
    and mine: "Some i \<in> set (mine_squares (prepared g drawn))"
  shows "\<exists>g'. left_click ed drawn g x y = Some (Returned (finish g' ''You lose'')) \<and>
     steps False (explode (prepared g drawn) i 12) g' \<and> swept g'"
proof -
  let ?h = "prepared g drawn"
  from wf smp have wfh: "well_formed ?h" by (rule prepared_well_formed)
  from free mine have "step True ?h (explode ?h i 12)" by (intro step.explode) auto
  then have wf1: "well_formed (explode ?h i 12)" using wfh by (rule step_well_formed)
  have st1: "activated_squares (explode ?h i 12) \<noteq> []" by (simp add: explode_def)
  obtain r where r: "activate_square (Suc (size g * size g + 1)) ed drawn g x y True = Some r"
    using activate_square_returns [of g ed drawn x y True] by (auto simp: depth_bound_Suc)
  from free mine r
  have "end_game (size g * size g + 1) ed drawn (explode ?h i 12) ''You lose'' = Some r"
    unfolding activate_square_in_grid [OF prepare_in_grid [OF sq smp] sq]
    by (simp add: hidden_free_def)
  from end_game_traced [OF reveal_traced_all wf1 st1 this]
  obtain g' where "r = Returned (finish g' ''You lose'')"
    "steps False (explode ?h i 12) g'" "swept g'" by blast
  moreover from bd sq have "left_click ed drawn g x y =
      activate_square (Suc (size g * size g + 1)) ed drawn g x y True"
    by (simp add: left_click_def depth_bound_Suc)
  ultimately show ?thesis using r by auto
qed

text \<open>
  C1. The first revealed square can be a mine. In a new game with one mine, flag the
  square \<open>(0, 0)\<close> and click it: the click is rejected because of the flag, but it has
  drawn the mine, say square 5. Now click \<open>(5, 0)\<close>: no square is revealed yet, so this
  click draws a mine again, from the squares other than 5, say square 7. Square 5 is
  still a mine from the first draw: the click explodes it, the first square ever revealed
  is a mine, and the game is lost.
\<close>

theorem first_reveal_hits_mine:
  "\<exists>g1 g2 g3 valid1 valid2 rest.
     right_click (start_game 1) 0 0 = Returned g1 \<and>
     list_pop [0..<size g1 ^ 2] (0 * int (size g1) + 0) = Inr valid1 \<and>
     is_sample valid1 (undiscovered_mines g1) [5] \<and>
     left_click ed [5] g1 0 0 = Some (Returned g2) \<and>
     activated_squares g2 = [] \<and> mine_squares g2 = [Some 5] \<and>
     get_square g2 5 0 = Some 5 \<and>
     list_pop [0..<size g2 ^ 2] (0 * int (size g2) + 5) = Inr valid2 \<and>
     5 \<notin> set valid2 \<and> is_sample valid2 (undiscovered_mines g2) [7] \<and>
     left_click ed [7] g2 5 0 = Some (Returned g3) \<and>
     mine_squares g3 = [Some 5, Some 7] \<and> activated_squares g3 = Some 5 # rest \<and>
     images g3 5 = 12 \<and> ending_text g3 = ''You lose''"
proof -
  define g1 where "g1 = (start_game 1)\<lparr>marked_squares := [Some 0],
      images := (images (start_game 1))(0 := 11), mines_label := 0\<rparr>"
  have 1: "right_click (start_game 1) 0 0 = Returned g1"
    by (simp add: g1_def right_click_def mark_square_def get_square_def start_game_def
          configure_def)
  have sz: "size g1 = 10" by (simp add: g1_def start_game_def)
  have p1: "list_pop [0..<size g1 ^ 2] (0 * int (size g1) + 0) = Inr (population g1 0)"
    using list_pop_upt [of 0 "size g1 ^ 2"] by (simp add: population_def sz)
  have s1: "is_sample (population g1 0) (undiscovered_mines g1) [5]"
    by (simp add: g1_def is_sample_def population_def start_game_def)
  have b1: "bound g1" "get_square g1 0 0 = Some 0" "Some 0 \<in> set (marked_squares g1)"
    by (simp_all add: g1_def get_square_def start_game_def)
  have 2: "left_click ed [5] g1 0 0 = Some (Returned (prepared g1 [5]))"
    using b1 s1 by (intro left_click_flagged) auto
  define g2 where "g2 = prepared g1 [5]"
  have g2: "g2 = mined g1 [5]" by (simp add: g2_def prepared_def g1_def start_game_def)
  have m2: "activated_squares g2 = []" "mine_squares g2 = [Some 5]"
    "get_square g2 5 0 = Some 5" "bound g2" "size g2 = 10"
    by (simp_all add: g2 mined_def g1_def start_game_def get_square_def)
  have p2: "list_pop [0..<size g2 ^ 2] (0 * int (size g2) + 5) = Inr (population g2 5)"
    using list_pop_upt [of 5 "size g2 ^ 2"] by (simp add: population_def m2)
  have s2: "5 \<notin> set (population g2 5)"
    "is_sample (population g2 5) (undiscovered_mines g2) [7]"
    by (simp_all add: g2 mined_def g1_def is_sample_def population_def start_game_def)
  have wf2: "well_formed g2"
    by (simp add: g2 mined_def g1_def start_game_def well_formed_def)
  define h where "h = prepared g2 [7]"
  have h: "mine_squares h = [Some 5, Some 7]" "activated_squares h = []"
    "marked_squares h = [Some 0]" "size h = 10"
    by (simp_all add: h_def prepared_def g2 mined_def g1_def start_game_def)
  then have free: "hidden_free h 5" and mine: "Some 5 \<in> set (mine_squares h)"
    by (simp_all add: hidden_free_def)
  from left_click_mine [OF wf2 m2(4,3) _ free [unfolded h_def] mine [unfolded h_def],
      where ed = ed] s2(2)
  obtain g' where 3: "left_click ed [7] g2 5 0 = Some (Returned (finish g' ''You lose''))"
    and st: "steps False (explode h 5 12) g'" by (auto simp: h_def)
  from steps_appends [OF st] obtain rest where
    "activated_squares g' = activated_squares (explode h 5 12) @ rest" by blast
  then have a3: "activated_squares (finish g' ''You lose'') = Some 5 # rest"
    by (simp add: explode_def h)
  from steps_same_board [OF st]
  have m3: "mine_squares (finish g' ''You lose'') = [Some 5, Some 7]"
    by (simp add: same_board_def explode_def h)
  have "images g' 5 = images (explode h 5 12) 5"
    using st by (rule steps_image_kept) (simp add: explode_def)
  then have i3: "images (finish g' ''You lose'') 5 = 12" by (simp add: explode_def)
  have e3: "ending_text (finish g' ''You lose'') = ''You lose''" by simp
  from 1 p1 s1 2 m2(1-3) p2 s2 3 m3 a3 i3 e3 show ?thesis
    unfolding g2_def [symmetric] by blast
qed

text \<open>
  C2. A game can have every square without a mine revealed and still not be won. In a new
  game with 98 mines, flag the square \<open>(0, 0)\<close> and click it: the click is rejected, but it
  has drawn the mines, say the squares 1 to 98. Remove the flag and click \<open>(0, 0)\<close> again:
  no square is revealed yet, so 98 mines are drawn again, say the squares 2 to 99. Now
  the squares 1 to 99 are mines, the clicked square 0 is revealed, and it is the only
  square without a mine. But the counter of safe squares, set to 2 by \<open>start_game\<close>, is
  now 1: \<open>check_win\<close> does not fire, the ending text stays empty and the squares stay bound.
\<close>

theorem all_safe_revealed_not_won:
  "\<exists>g1 g2 g3 g4.
     right_click (start_game 98) 0 0 = Returned g1 \<and>
     list_pop [0..<size g1 ^ 2] (0 * int (size g1) + 0) = Inr (population g1 0) \<and>
     is_sample (population g1 0) (undiscovered_mines g1) [1..<99] \<and>
     left_click ed [1..<99] g1 0 0 = Some (Returned g2) \<and>
     right_click g2 0 0 = Returned g3 \<and>
     list_pop [0..<size g3 ^ 2] (0 * int (size g3) + 0) = Inr (population g3 0) \<and>
     is_sample (population g3 0) (undiscovered_mines g3) [2..<100] \<and>
     left_click ed [2..<100] g3 0 0 = Some (Returned g4) \<and>
     activated_squares g4 = [Some 0] \<and>
     {j. j < size g4 * size g4 \<and> Some j \<notin> set (mine_squares g4)} = {0} \<and>
     undiscovered_squares g4 = 1 \<and> ending_text g4 = [] \<and> bound g4 \<and> \<not> has_won g4"
proof -
  define g1 where "g1 = (start_game 98)\<lparr>marked_squares := [Some 0],
      images := (images (start_game 98))(0 := 11), mines_label := 97\<rparr>"
  have 1: "right_click (start_game 98) 0 0 = Returned g1"
    by (simp add: g1_def right_click_def mark_square_def get_square_def start_game_def
          configure_def Let_def)
  have s1: "is_sample (population g1 0) (undiscovered_mines g1) [1..<99]"
    by (auto simp: g1_def is_sample_def population_def start_game_def)
  have b1: "bound g1" "get_square g1 0 0 = Some 0" "Some 0 \<in> set (marked_squares g1)"
    by (simp_all add: g1_def get_square_def start_game_def)
  have 2: "left_click ed [1..<99] g1 0 0 = Some (Returned (prepared g1 [1..<99]))"
    using b1 s1 by (intro left_click_flagged) auto
  define g2 where "g2 = prepared g1 [1..<99]"
  have g2: "g2 = mined g1 [1..<99]" by (simp add: g2_def prepared_def g1_def start_game_def)
  define g3 where "g3 = g2\<lparr>marked_squares := [],
      images := (images g2)(0 := 10), mines_label := 98\<rparr>"
  have f2: "get_square g2 0 0 = Some 0" "activated_squares g2 = []"
    "marked_squares g2 = [Some 0]" "mines_label g2 = 97" "bound g2"
    by (simp_all add: g2 mined_def g1_def start_game_def get_square_def)
  have 3: "right_click g2 0 0 = Returned g3"
    unfolding right_click_def mark_square_in_grid [OF f2(1)]
    by (simp add: f2 g3_def)
  have f3: "get_square g3 0 0 = Some 0" "activated_squares g3 = []"
    "marked_squares g3 = []" "bound g3" "undiscovered_mines g3 = 98" "size g3 = 10"
    "mine_squares g3 = map Some [1..<99]" "undiscovered_squares g3 = 2"
    "ending_text g3 = []" "\<not> has_won g3"
    by (simp_all add: g3_def g2 mined_def g1_def start_game_def get_square_def)
  have s3: "is_sample (population g3 0) (undiscovered_mines g3) [2..<100]"
    by (auto simp: is_sample_def population_def f3)
  define h where "h = prepared g3 [2..<100]"
  have fh: "get_square h 0 0 = Some 0" "activated_squares h = []"
    "marked_squares h = []" "bound h" "size h = 10"
    "mine_squares h = map Some [1..<99] @ map Some [2..<100]" "undiscovered_squares h = 2"
    "ending_text h = []" "\<not> has_won h"
    by (simp_all add: h_def prepared_def mined_def f3 get_square_def)
  have mine: "Some j \<in> set (mine_squares h) \<longleftrightarrow> 1 \<le> j \<and> j < 100" for j
    unfolding fh by (simp only: set_append set_map set_upt) (auto simp: image_iff)
  have w: "(1, 0) \<in> set (window (int (0 mod size h)) (int (0 div size h)))"
    by (simp add: window_def)
  have sq1: "get_square h 1 0 = Some 1" by (simp add: get_square_def fh)
  have adj: "adjacent_mines h 0 \<noteq> 0"
  proof
    assume "adjacent_mines h 0 = 0"
    from adjacent_mines_zero [OF this w sq1] mine [of 1] show False by simp
  qed
  have 4: "left_click ed [2..<100] g3 0 0 = Some (Returned (uncover h 0))"
    unfolding h_def
  proof (rule left_click_plain [OF f3(4,1)])
    from s3 show "activated_squares g3 = [] \<longrightarrow>
        is_sample (population g3 0) (undiscovered_mines g3) [2..<100]" ..
    show "Some 0 \<notin> set (marked_squares (prepared g3 [2..<100]))"
      "Some 0 \<notin> set (activated_squares (prepared g3 [2..<100]))"
      "Some 0 \<notin> set (mine_squares (prepared g3 [2..<100]))"
      "adjacent_mines (prepared g3 [2..<100]) 0 \<noteq> 0"
      "\<not> win_fires ed (uncover (prepared g3 [2..<100]) 0)"
      using adj mine [of 0] unfolding h_def [symmetric]
      by (simp_all add: fh win_fires_def uncover_def)
  qed
  have 5: "activated_squares (uncover h 0) = [Some 0]"
    "undiscovered_squares (uncover h 0) = 1" "ending_text (uncover h 0) = []"
    "bound (uncover h 0)" "\<not> has_won (uncover h 0)"
    by (simp_all add: uncover_def fh)
  have 6: "{j. j < size (uncover h 0) * size (uncover h 0) \<and>
        Some j \<notin> set (mine_squares (uncover h 0))} = {0}"
  proof -
    have "{j. j < size h * size h \<and> Some j \<notin> set (mine_squares h)} = {0}"
      unfolding mine fh(5) by auto
    then show ?thesis by simp
  qed
  have p1: "list_pop [0..<size g1 ^ 2] (0 * int (size g1) + 0) = Inr (population g1 0)"
    using list_pop_upt [of 0 "size g1 ^ 2"]
    by (simp add: population_def g1_def start_game_def)
  have p3: "list_pop [0..<size g3 ^ 2] (0 * int (size g3) + 0) = Inr (population g3 0)"
    using list_pop_upt [of 0 "size g3 ^ 2"] by (simp add: population_def f3)
  from 1 p1 s1 2 3 p3 s3 4 5 6 show ?thesis
    unfolding g2_def [symmetric] by blast
qed



lemma safe_reveal_outcome:
  assumes prep: "prepare g x y drawn = Returned h" and wf: "well_formed h"
    and prog: "in_progress h" and sq: "get_square g x y = Some i"
    and hf: "hidden_free h i" and safe: "Some i \<notin> set (mine_squares h)"
    and run: "activate_square (Suc n) ed drawn g x y True = Some r"
  shows "\<exists>g'. r = Returned g' \<and> cascade_post ed h g' \<and> g' \<noteq> h"
proof -
  note same = prepare_Returned_same [OF prep]
  from hf have i: "i < size h * size h" by (simp add: hidden_free_def)
  note eq = activate_square_in_grid [OF prep sq, where n = n and ed = ed and c = True]
  let ?g1 = "uncover h i"
  from hf safe have u1: "uncovering h ?g1" by (auto simp: uncovering_def)
  then have us1: "uncovers h ?g1" by (rule r_into_rtranclp)
  from u1 have s1: "step False h ?g1" by (rule uncovering_step)
  then have wf1: "well_formed ?g1" using wf by (rule step_well_formed)
  have started1: "activated_squares ?g1 \<noteq> []" by simp
  from prog have prog1: "in_progress ?g1" by (simp add: in_progress_def)
  have sq1: "get_square ?g1 a b = get_square h a b" for a b
    by (rule get_square_cong) simp
  let ?adj = "if adjacent_mines h i = 0
       then activate_adjacent_squares n ed drawn ?g1 (Some i)
       else Some (Returned ?g1)"
  from run hf safe
  have rest: "then_run ?adj (\<lambda>g. check_win n ed drawn g) = Some r"
    by (simp add: eq hidden_free_def)
  then obtain r2 where r2: "?adj = Some r2" by (auto simp: then_run_Some)
  have "\<exists>g2. r2 = Returned g2 \<and> cascade_post ed ?g1 g2"
  proof (cases "adjacent_mines h i = 0")
    case True
    with r2 i have loop: "adjacent_loop n ed drawn ?g1
        (window (int (i mod size h)) (int (i div size h))) = Some r2"
      by (simp add: activate_adjacent_squares_in_grid)
    have "\<forall>(x, y) \<in> set (window (int (i mod size h)) (int (i div size h))).
        \<forall>j. get_square ?g1 x y = Some j \<longrightarrow>
          Some j \<in> set (activated_squares ?g1) \<or> Some j \<notin> set (mine_squares ?g1)"
      using window_centre [OF i _ _ True safe] by (auto simp: sq1)
    from adjacent_loop_cascade [OF cascade_ok_all wf1 started1 prog1 this loop]
    show ?thesis .
  next
    case False
    with r2 show ?thesis by (auto simp: cascade_post_refl)
  qed
  then obtain g2 where g2: "r2 = Returned g2" "cascade_post ed ?g1 g2" by blast
  from g2(2) have st2: "steps False ?g1 g2"
    by (auto simp: cascade_post_def dest: uncovers_steps)
  from st2 wf1 started1 have wf2: "well_formed g2" and started2: "activated_squares g2 \<noteq> []"
    by (auto dest: steps_well_formed steps_started)
  from rest r2 g2(1) have "check_win n ed drawn g2 = Some r" by simp
  from check_win_cascade [OF wf2 started2 g2(2) prog1 this]
  obtain g' where g': "r = Returned g'"
    "uncovers ?g1 g' \<and> 0 < undiscovered_squares g' \<or> won ed g' \<and> steps False ?g1 g'"
    by blast
  from g'(2) have st: "steps False ?g1 g'" by (auto dest: uncovers_steps)
  from steps_activated [OF st] hf have "g' \<noteq> h" by (auto simp: hidden_free_def)
  from g'(2) consider
    (quiet) "uncovers ?g1 g'" "0 < undiscovered_squares g'"
  | (won) "won ed g'" "steps False ?g1 g'"
    by blast
  then have "cascade_post ed h g'"
  proof cases
    case quiet
    from us1 quiet(1) have us: "uncovers h g'" by (rule rtranclp_trans)
    with quiet(2) show ?thesis by (simp add: cascade_post_def)
  next
    case won
    from s1 won(2) have "steps False h g'" by (rule converse_rtranclp_into_rtranclp)
    with won(1) show ?thesis by (simp add: cascade_post_def)
  qed
  with g'(1) \<open>g' \<noteq> h\<close> show ?thesis by blast
qed



lemma shown_cong: "same_board g g' \<Longrightarrow> shown g' j = shown g j"
  unfolding shown_def same_board_def
  using adjacent_mines_cong [of g' g j] by simp

lemma step_quiet_image:
  "step False g g' \<Longrightarrow> Some j \<in> set (activated_squares g') \<Longrightarrow>
     Some j \<notin> set (activated_squares g) \<Longrightarrow> images g' j = shown g j"
  by (induction rule: step.induct)
     (auto simp: uncover_def explode_def finish_def shown_def)

lemma steps_quiet_image:
  "steps False g g' \<Longrightarrow> Some j \<in> set (activated_squares g') \<Longrightarrow>
     Some j \<notin> set (activated_squares g) \<Longrightarrow> images g' j = shown g j"
proof (induction rule: rtranclp_induct)
  case base
  then show ?case by simp
next
  case (step g1 g2)
  show ?case
  proof (cases "Some j \<in> set (activated_squares g1)")
    case True
    with step.IH step.prems have "images g1 j = shown g j" by simp
    moreover from step.hyps(2) True have "images g2 j = images g1 j"
      by (intro step_image_kept) auto
    ultimately show ?thesis by simp
  next
    case False
    from step_quiet_image [OF step.hyps(2) step.prems(1) False]
    have "images g2 j = shown g1 j" .
    also from steps_same_board [OF step.hyps(1)] have "\<dots> = shown g j" by (rule shown_cong)
    finally show ?thesis .
  qed
qed

text \<open>
  A state in which the text is set has no hidden square without a flag, and its squares are
  unbound.
\<close>

lemma won_facts:
  assumes "won ed g'" "steps False h g'" "well_formed h"
  shows "swept g'" "\<not> bound g'" "ending_text g' = win_message ed" "same_board h g'"
    "well_formed g'"
    "\<forall>j. Some j \<in> set (activated_squares g') \<longrightarrow> Some j \<notin> set (activated_squares h) \<longrightarrow>
       images g' j = shown g' j"
    "\<forall>j. Some j \<in> set (marked_squares h) \<longrightarrow> images g' j = images h j"
proof -
  from assms(1) show "swept g'" "\<not> bound g'" "ending_text g' = win_message ed"
    by (simp_all add: won_def)
  from assms(2) show sb: "same_board h g'" by (rule steps_same_board)
  from assms(2,3) show "well_formed g'" by (rule steps_well_formed)
  from steps_quiet_image [OF assms(2)] shown_cong [OF sb]
  show "\<forall>j. Some j \<in> set (activated_squares g') \<longrightarrow> Some j \<notin> set (activated_squares h) \<longrightarrow>
       images g' j = shown g' j" by simp
  from steps_image_kept [OF assms(2)]
  show "\<forall>j. Some j \<in> set (marked_squares h) \<longrightarrow> images g' j = images h j" by blast
qed


lemma swept_revealed:
  assumes "swept g'" "well_formed g'" "j < size g' * size g'"
  shows "Some j \<in> set (activated_squares g') \<longleftrightarrow> Some j \<notin> set (marked_squares g')"
  using assms by (auto simp: swept_def hidden_free_def well_formed_def)




lemma closed_over_refl: "closed_over g g"
  by (simp add: closed_over_def)

lemma closed_over_swept:
  assumes "swept g'" "same_board g g'"
  shows "closed_over g g'"
  using assms
  by (auto simp: closed_over_def swept_def hidden_free_def same_board_def neighbours_def)

lemma neighbours_cong: "size g' = size g \<Longrightarrow> neighbours g' j = neighbours g j"
  by (simp add: neighbours_def)

lemma closed_over_trans:
  assumes "closed_over g g1" "closed_over g1 g2" "steps c g g1" "steps c' g1 g2"
  shows "closed_over g g2"
proof -
  from steps_same_board [OF assms(3)] have sb: "size g1 = size g"
    "mine_squares g1 = mine_squares g" "marked_squares g1 = marked_squares g"
    by (simp_all add: same_board_def)
  note am = adjacent_mines_cong [OF sb] and nb = neighbours_cong [OF sb(1)]
  from steps_activated [OF assms(4)]
  have grow: "set (activated_squares g1) \<subseteq> set (activated_squares g2)" .
  show ?thesis
    unfolding closed_over_def
  proof (intro allI impI)
    fix j n
    assume j: "Some j \<in> set (activated_squares g2)" "Some j \<notin> set (activated_squares g)"
      "adjacent_mines g j = 0" "n \<in> neighbours g j"
    show "Some n \<in> set (marked_squares g) \<or> Some n \<in> set (activated_squares g2)"
    proof (cases "Some j \<in> set (activated_squares g1)")
      case True
      with assms(1) j grow show ?thesis unfolding closed_over_def by blast
    next
      case False
      with assms(2) j show ?thesis unfolding closed_over_def am nb sb by blast
    qed
  qed
qed

lemma closed_over_uncover:
  assumes "closed_over (uncover g i) g2" "steps c (uncover g i) g2"
    and "adjacent_mines g i = 0 \<longrightarrow>
       (\<forall>n \<in> neighbours g i. Some n \<in> set (marked_squares g) \<or>
          Some n \<in> set (activated_squares g2))"
  shows "closed_over g g2"
proof -
  have sb: "size (uncover g i) = size g" "mine_squares (uncover g i) = mine_squares g"
    "marked_squares (uncover g i) = marked_squares g" by simp_all
  note am = adjacent_mines_cong [OF sb] and nb = neighbours_cong [OF sb(1)]
  show ?thesis
    unfolding closed_over_def
  proof (intro allI impI)
    fix j n
    assume j: "Some j \<in> set (activated_squares g2)" "Some j \<notin> set (activated_squares g)"
      "adjacent_mines g j = 0" "n \<in> neighbours g j"
    show "Some n \<in> set (marked_squares g) \<or> Some n \<in> set (activated_squares g2)"
    proof (cases "j = i")
      case True
      with assms(3) j show ?thesis by auto
    next
      case False
      with j(2) have "Some j \<notin> set (activated_squares (uncover g i))" by simp
      with assms(1) j show ?thesis unfolding closed_over_def am nb sb by blast
    qed
  qed
qed

lemma end_game_swept:
  assumes wf: "well_formed g" and started: "activated_squares g \<noteq> []"
    and run: "end_game n ed drawn g message = Some r"
  shows "\<exists>g'. r = Returned g' \<and> steps False g g' \<and> swept g' \<and> \<not> bound g' \<and>
     ending_text g' = message"
proof -
  from end_game_traced [OF reveal_traced_all assms] obtain g' where
    g': "r = Returned (finish g' message)" "steps False g g'" "swept g'" by blast
  from g'(3) have "step False g' (finish g' message)" by (rule step.finish)
  with g'(2) have "steps False g (finish g' message)"
    by (rule rtranclp.rtrancl_into_rtrancl)
  with g'(1,3) show ?thesis by simp
qed

lemma check_win_swept:
  assumes wf: "well_formed g" and started: "activated_squares g \<noteq> []"
    and run: "check_win n ed drawn g = Some r"
  shows "\<exists>g'. r = Returned g' \<and> steps False g g' \<and> (g' = g \<or> swept g' \<and> \<not> bound g')"
proof (cases "win_fires ed g")
  case True
  with run have "end_game n ed drawn (note_win ed g) (win_message ed) = Some r"
    by (simp add: check_win_eq)
  moreover from wf started
  have "well_formed (note_win ed g)" "activated_squares (note_win ed g) \<noteq> []"
    by (simp_all add: note_win_same)
  ultimately obtain g' where g': "r = Returned g'" "steps False (note_win ed g) g'"
    "swept g'" "\<not> bound g'" using end_game_swept by blast
  from note_win_steps [of False g ed] g'(2) have "steps False g g'" by (rule rtranclp_trans)
  with g' show ?thesis by blast
next
  case False
  with run have "r = Returned g" by (simp add: check_win_eq)
  then show ?thesis by auto
qed

lemma adjacent_loop_closed:
  assumes rec: "reveal_closed n ed drawn"
  shows "well_formed g \<Longrightarrow> activated_squares g \<noteq> [] \<Longrightarrow>
     adjacent_loop n ed drawn g cs = Some r \<Longrightarrow>
     \<exists>g'. r = Returned g' \<and> closed_over g g'"
proof (induction cs arbitrary: g)
  case Nil
  then show ?case by (auto simp: closed_over_refl)
next
  case (Cons p cs)
  obtain x y where p: "p = (x, y)" by (cases p)
  note wf = Cons.prems(1) and started = Cons.prems(2) and run = Cons.prems(3)
  show ?case
  proof (cases "get_square g x y \<in> set (activated_squares g) \<or> get_square g x y = None")
    case True
    with run have "adjacent_loop n ed drawn g cs = Some r"
      by (auto simp: p Let_def split: if_splits)
    from Cons.IH [OF wf started this] show ?thesis .
  next
    case False
    then obtain i where i: "get_square g x y = Some i"
      and hid: "Some i \<notin> set (activated_squares g)" by auto
    from run hid i
    have run': "then_run (activate_square n ed drawn g x y True)
        (\<lambda>g. adjacent_loop n ed drawn g cs) = Some r"
      by (simp add: p Let_def)
    then obtain r1 where r1: "activate_square n ed drawn g x y True = Some r1"
      by (auto simp: then_run_Some)
    with rec wf started i obtain g1 where g1: "r1 = Returned g1" "closed_over g g1"
      unfolding reveal_closed_def by blast
    from reveal_traced_all [of n ed drawn] wf started i r1 g1(1)
    have st1: "steps True g g1" unfolding reveal_traced_def by fastforce
    from st1 wf started have wf1: "well_formed g1" and started1: "activated_squares g1 \<noteq> []"
      by (auto dest: steps_well_formed steps_started)
    from run' r1 g1(1) have rest: "adjacent_loop n ed drawn g1 cs = Some r" by simp
    from Cons.IH [OF wf1 started1 rest] obtain g' where
      g': "r = Returned g'" "closed_over g1 g'" by blast
    from adjacent_loop_traced [OF reveal_traced_all wf1 started1 rest] g'(1)
    have "steps True g1 g'" by auto
    from closed_over_trans [OF g1(2) g'(2) st1 this] g'(1) show ?thesis by blast
  qed
qed

lemma activate_square_Suc_closed:
  assumes rec: "reveal_closed n ed drawn" and prep: "prepare g x y drawn = Returned h"
    and wf: "well_formed h" and sq: "get_square g x y = Some i"
    and run: "activate_square (Suc n) ed drawn g x y True = Some r"
  shows "\<exists>g'. r = Returned g' \<and> closed_over h g'"
proof -
  from sq have "i < size g * size g" by (rule get_square_less)
  then have i: "i < size h * size h" by (simp add: prepare_Returned_same [OF prep])
  note eq = activate_square_in_grid [OF prep sq, where n = n and ed = ed and c = True]
  show ?thesis
  proof (cases "Some i \<in> set (marked_squares h)")
    case True
    with run show ?thesis by (auto simp: eq closed_over_refl)
  next
    case unmarked: False
    show ?thesis
    proof (cases "Some i \<in> set (activated_squares h)")
      case True
      then have started: "activated_squares h \<noteq> []" by auto
      show ?thesis
      proof (cases "adjacent_mines h i = adjacent_flags h i")
        case same: True
        with run unmarked True
        have "activate_adjacent_squares n ed drawn h (Some i) = Some r"
          by (simp add: eq)
        with i have "adjacent_loop n ed drawn h
            (window (int (i mod size h)) (int (i div size h))) = Some r"
          by (simp add: activate_adjacent_squares_in_grid)
        from adjacent_loop_closed [OF rec wf started this] show ?thesis .
      next
        case False
        with run unmarked True show ?thesis by (auto simp: eq closed_over_refl)
      qed
    next
      case hidden: False
      with unmarked i have hf: "hidden_free h i" by (simp add: hidden_free_def)
      show ?thesis
      proof (cases "Some i \<in> set (mine_squares h)")
        case True
        let ?g1 = "explode h i 12"
        from hf True have s1: "step True h ?g1" by (intro step.explode) auto
        then have wf1: "well_formed ?g1" using wf by (rule step_well_formed)
        have st1: "activated_squares ?g1 \<noteq> []" by (simp add: explode_def)
        from run unmarked hidden True
        have "end_game n ed drawn ?g1 ''You lose'' = Some r" by (simp add: eq)
        from end_game_swept [OF wf1 st1 this]
        obtain g' where g': "r = Returned g'" "steps False ?g1 g'" "swept g'" by blast
        from step_same_board [OF s1] steps_same_board [OF g'(2)]
        have "same_board h g'" by (simp add: same_board_def)
        with g'(3) have "closed_over h g'" by (rule closed_over_swept)
        with g'(1) show ?thesis by blast
      next
        case safe: False
        let ?g1 = "uncover h i"
        from hf safe have s1: "step True h ?g1" by (rule step.uncover)
        then have wf1: "well_formed ?g1" using wf by (rule step_well_formed)
        have st1: "activated_squares ?g1 \<noteq> []" by simp
        have i1: "i < size ?g1 * size ?g1" using i by simp
        let ?adj = "if adjacent_mines h i = 0
           then activate_adjacent_squares n ed drawn ?g1 (Some i)
           else Some (Returned ?g1)"
        from run unmarked hidden safe
        have rest: "then_run ?adj (\<lambda>g. check_win n ed drawn g) = Some r"
          by (simp add: eq)
        then obtain r2 where r2: "?adj = Some r2" by (auto simp: then_run_Some)
        have "\<exists>g2. r2 = Returned g2 \<and> steps True ?g1 g2 \<and> closed_over h g2"
        proof (cases "adjacent_mines h i = 0")
          case True
          with r2 i have loop: "adjacent_loop n ed drawn ?g1
              (window (int (i mod size h)) (int (i div size h))) = Some r2"
            by (simp add: activate_adjacent_squares_in_grid)
          from adjacent_loop_closed [OF rec wf1 st1 loop] obtain g2 where
            g2: "r2 = Returned g2" "closed_over ?g1 g2" by blast
          from adjacent_loop_traced [OF reveal_traced_all wf1 st1 loop] g2(1)
          have st: "steps True ?g1 g2"
            and all: "\<forall>(x, y) \<in> set (window (int (i mod size h)) (int (i div size h))).
              \<forall>j. get_square ?g1 x y = Some j \<longrightarrow>
                Some j \<in> set (marked_squares ?g1) \<or> Some j \<in> set (activated_squares g2)"
            by auto
          have "\<forall>n \<in> neighbours h i. Some n \<in> set (marked_squares h) \<or>
              Some n \<in> set (activated_squares g2)"
          proof
            fix m
            assume "m \<in> neighbours h i"
            with window_neighbours [OF i] obtain a b where
              "(a, b) \<in> set (window (int (i mod size h)) (int (i div size h)))"
              "get_square h a b = Some m" by blast
            moreover have "get_square ?g1 a b = get_square h a b"
              by (rule get_square_cong) simp
            ultimately show "Some m \<in> set (marked_squares h) \<or>
                Some m \<in> set (activated_squares g2)" using all by fastforce
          qed
          with closed_over_uncover [OF g2(2) st] have "closed_over h g2" by blast
          with g2(1) st show ?thesis by blast
        next
          case False
          have "closed_over h ?g1"
          proof (rule closed_over_uncover [where c = True and i = i])
            show "closed_over ?g1 ?g1" by (rule closed_over_refl)
            show "steps True ?g1 ?g1" by simp
            from False show "adjacent_mines h i = 0 \<longrightarrow>
              (\<forall>n \<in> neighbours h i. Some n \<in> set (marked_squares h) \<or>
                 Some n \<in> set (activated_squares ?g1))" by simp
          qed
          with r2 False show ?thesis by auto
        qed
        then obtain g2 where g2: "r2 = Returned g2" "steps True ?g1 g2" "closed_over h g2"
          by blast
        from g2(2) wf1 st1 have wf2: "well_formed g2" and st2: "activated_squares g2 \<noteq> []"
          by (auto dest: steps_well_formed steps_started)
        from rest r2 g2(1) have "check_win n ed drawn g2 = Some r" by simp
        from check_win_swept [OF wf2 st2 this] obtain g' where
          g': "r = Returned g'" "steps False g2 g'" "g' = g2 \<or> swept g' \<and> \<not> bound g'"
          by blast
        from step_same_board [OF s1] steps_same_board [OF g2(2)] steps_same_board [OF g'(2)]
        have "same_board h g'" by (simp add: same_board_def)
        with g'(3) g2(3) have "closed_over h g'" by (auto intro: closed_over_swept)
        with g'(1) show ?thesis by blast
      qed
    qed
  qed
qed

lemma reveal_closed_all: "reveal_closed n ed drawn"
proof (induction n)
  case 0
  show ?case by (simp add: reveal_closed_def)
next
  case (Suc n)
  show ?case
    unfolding reveal_closed_def
    using activate_square_Suc_closed [OF Suc prepare_started]
    by blast
qed

lemma within_refl: "within g g T"
  by (simp add: within_def)

lemma within_trans: "within g g1 T \<Longrightarrow> within g1 g2 T \<Longrightarrow> within g g2 T"
  unfolding within_def by blast

lemma hidden_free_mono:
  assumes "same_board g g1" "set (activated_squares g) \<subseteq> set (activated_squares g1)"
    "hidden_free g1 j"
  shows "hidden_free g j"
  using assms by (auto simp: hidden_free_def same_board_def)

lemma spreads_mono:
  assumes "spreads g T" "same_board g g1"
    "set (activated_squares g) \<subseteq> set (activated_squares g1)"
  shows "spreads g1 T"
proof -
  from assms(2) have sb: "size g1 = size g" "mine_squares g1 = mine_squares g"
    "marked_squares g1 = marked_squares g" by (simp_all add: same_board_def)
  note am = adjacent_mines_cong [OF sb] and nb = neighbours_cong [OF sb(1)]
  from assms(1) hidden_free_mono [OF assms(2,3)] show ?thesis
    unfolding spreads_def am nb by blast
qed

lemma adjacent_loop_within:
  assumes rec: "reveal_within n ed drawn"
  shows "well_formed g \<Longrightarrow> activated_squares g \<noteq> [] \<Longrightarrow> in_progress g \<Longrightarrow>
     \<forall>(x, y) \<in> set cs. \<forall>j. get_square g x y = Some j \<longrightarrow> hidden_free g j \<longrightarrow>
        j \<in> T \<and> Some j \<notin> set (mine_squares g) \<Longrightarrow>
     spreads g T \<Longrightarrow> adjacent_loop n ed drawn g cs = Some r \<Longrightarrow>
     \<exists>g'. r = Returned g' \<and> (in_progress g' \<longrightarrow> within g g' T)"
proof (induction cs arbitrary: g)
  case Nil
  then show ?case by (auto simp: within_refl)
next
  case (Cons p cs)
  obtain x y where p: "p = (x, y)" by (cases p)
  note wf = Cons.prems(1) and started = Cons.prems(2) and prog = Cons.prems(3)
    and sp = Cons.prems(5) and run = Cons.prems(6)
  from Cons.prems(4) have tl: "\<forall>(x, y) \<in> set cs. \<forall>j. get_square g x y = Some j \<longrightarrow>
      hidden_free g j \<longrightarrow> j \<in> T \<and> Some j \<notin> set (mine_squares g)" by simp
  show ?case
  proof (cases "get_square g x y \<in> set (activated_squares g) \<or> get_square g x y = None")
    case True
    with run have "adjacent_loop n ed drawn g cs = Some r"
      by (auto simp: p Let_def split: if_splits)
    from Cons.IH [OF wf started prog tl sp this] show ?thesis .
  next
    case False
    then obtain i where i: "get_square g x y = Some i"
      and hid: "Some i \<notin> set (activated_squares g)" by auto
    from i have ig: "i < size g * size g" by (rule get_square_less)
    from run hid i
    have run': "then_run (activate_square n ed drawn g x y True)
        (\<lambda>g. adjacent_loop n ed drawn g cs) = Some r"
      by (simp add: p Let_def)
    then obtain r1 where r1: "activate_square n ed drawn g x y True = Some r1"
      by (auto simp: then_run_Some)
    then obtain k where n: "n = Suc k" by (cases n) auto
    show ?thesis
    proof (cases "Some i \<in> set (marked_squares g)")
      case True
      with r1 have "r1 = Returned g"
        by (simp add: n activate_square_in_grid [OF prepare_started [OF started] i])
      with run' r1 have "adjacent_loop n ed drawn g cs = Some r" by simp
      from Cons.IH [OF wf started prog tl sp this] show ?thesis .
    next
      case False
      with hid ig have hf: "hidden_free g i" by (simp add: hidden_free_def)
      with Cons.prems(4) i have iT: "i \<in> T" and safe: "Some i \<notin> set (mine_squares g)"
        by (auto simp: p)
      from rec wf started prog i hf safe iT sp r1 obtain g1 where
        g1: "r1 = Returned g1" "in_progress g1 \<longrightarrow> within g g1 T"
        unfolding reveal_within_def by blast
      from cascade_ok_all [of n ed drawn] wf started prog i hid safe r1 g1(1)
      have post: "cascade_post ed g g1" unfolding cascade_ok_def by fastforce
      from run' r1 g1(1) have rest: "adjacent_loop n ed drawn g1 cs = Some r" by simp
      from post consider
        (quiet) "uncovers g g1" | (won) "won ed g1" "steps False g g1"
        unfolding cascade_post_def by blast
      then show ?thesis
      proof cases
        case quiet
        note f = uncovers_facts [OF quiet wf started]
        from uncovers_steps [OF quiet, where c = False]
        have sb: "same_board g g1"
          and grow: "set (activated_squares g) \<subseteq> set (activated_squares g1)"
          by (auto dest: steps_same_board steps_activated)
        from prog f(5) have prog1: "in_progress g1" by simp
        have tl1: "\<forall>(x, y) \<in> set cs. \<forall>j. get_square g1 x y = Some j \<longrightarrow>
            hidden_free g1 j \<longrightarrow> j \<in> T \<and> Some j \<notin> set (mine_squares g1)"
          using tl hidden_free_mono [OF sb grow] unfolding f(3) f(4) by fast
        from Cons.IH [OF f(1,2) prog1 tl1 spreads_mono [OF sp sb grow] rest]
        obtain g' where g': "r = Returned g'" "in_progress g' \<longrightarrow> within g1 g' T" by blast
        from g1(2) prog1 g'(2) have "in_progress g' \<longrightarrow> within g g' T"
          by (auto intro: within_trans)
        with g'(1) show ?thesis by blast
      next
        case won
        then have "swept g1" "\<not> bound g1" by (simp_all add: won_def)
        moreover from won(2) started have "activated_squares g1 \<noteq> []"
          by (rule steps_started)
        ultimately have "r = Returned g1" "\<not> in_progress g1"
          using rest by (auto simp: in_progress_def dest: adjacent_loop_swept)
        then show ?thesis by blast
      qed
    qed
  qed
qed

lemma activate_square_Suc_within:
  assumes rec: "reveal_within n ed drawn" and prep: "prepare g x y drawn = Returned h"
    and wf: "well_formed h" and prog: "in_progress h" and sq: "get_square g x y = Some i"
    and hf: "hidden_free h i" and safe: "Some i \<notin> set (mine_squares h)"
    and iT: "i \<in> T" and sp: "spreads h T"
    and run: "activate_square (Suc n) ed drawn g x y True = Some r"
  shows "\<exists>g'. r = Returned g' \<and> (in_progress g' \<longrightarrow> within h g' T)"
proof -
  from hf have i: "i < size h * size h" by (simp add: hidden_free_def)
  note eq = activate_square_in_grid [OF prep sq, where n = n and ed = ed and c = True]
  let ?g1 = "uncover h i"
  from hf safe have s1: "step False h ?g1" by (rule step.uncover)
  then have wf1: "well_formed ?g1" using wf by (rule step_well_formed)
  have started1: "activated_squares ?g1 \<noteq> []" by simp
  from prog have prog1: "in_progress ?g1" by (simp add: in_progress_def)
  have sb1: "same_board h ?g1" using s1 by (rule step_same_board)
  have grow1: "set (activated_squares h) \<subseteq> set (activated_squares ?g1)" by auto
  have sq1: "get_square ?g1 a b = get_square h a b" for a b
    by (rule get_square_cong) simp
  have w1: "within h ?g1 T" using iT by (auto simp: within_def)
  let ?adj = "if adjacent_mines h i = 0
       then activate_adjacent_squares n ed drawn ?g1 (Some i)
       else Some (Returned ?g1)"
  from run hf safe
  have rest: "then_run ?adj (\<lambda>g. check_win n ed drawn g) = Some r"
    by (simp add: eq hidden_free_def)
  then obtain r2 where r2: "?adj = Some r2" by (auto simp: then_run_Some)
  have "\<exists>g2. r2 = Returned g2 \<and> steps True ?g1 g2 \<and> (in_progress g2 \<longrightarrow> within ?g1 g2 T)"
  proof (cases "adjacent_mines h i = 0")
    case True
    let ?w = "window (int (i mod size h)) (int (i div size h))"
    from True r2 i have loop: "adjacent_loop n ed drawn ?g1 ?w = Some r2"
      by (simp add: activate_adjacent_squares_in_grid)
    have "\<forall>(x, y) \<in> set ?w. \<forall>j. get_square ?g1 x y = Some j \<longrightarrow> hidden_free ?g1 j \<longrightarrow>
        j \<in> T \<and> Some j \<notin> set (mine_squares ?g1)"
    proof (intro ballI, clarify)
      fix a b j
      assume ab: "(a, b) \<in> set ?w" "get_square ?g1 a b = Some j" "hidden_free ?g1 j"
      from ab(2) have gj: "get_square h a b = Some j" by (simp add: sq1)
      with ab(1) window_neighbours [OF i] have "j \<in> insert i (neighbours h i)" by blast
      moreover from ab(3) have "j \<noteq> i" by (auto simp: hidden_free_def)
      ultimately have "j \<in> neighbours h i" by simp
      moreover from ab(3) have "hidden_free h j" by (rule hidden_free_mono [OF sb1 grow1])
      ultimately have "j \<in> T" using sp iT True unfolding spreads_def by blast
      moreover from window_centre [OF i ab(1) gj True safe]
      have "Some j \<notin> set (mine_squares ?g1)" by simp
      ultimately show "j \<in> T \<and> Some j \<notin> set (mine_squares ?g1)" ..
    qed
    from adjacent_loop_within [OF rec wf1 started1 prog1 this spreads_mono [OF sp sb1 grow1] loop]
    obtain g2 where g2: "r2 = Returned g2" "in_progress g2 \<longrightarrow> within ?g1 g2 T" by blast
    from adjacent_loop_traced [OF reveal_traced_all wf1 started1 loop] g2(1)
    have "steps True ?g1 g2" by auto
    with g2 show ?thesis by blast
  next
    case False
    with r2 show ?thesis by (auto simp: within_refl)
  qed
  then obtain g2 where g2: "r2 = Returned g2" "steps True ?g1 g2"
    "in_progress g2 \<longrightarrow> within ?g1 g2 T" by blast
  from g2(2) wf1 started1 have wf2: "well_formed g2" and st2: "activated_squares g2 \<noteq> []"
    by (auto dest: steps_well_formed steps_started)
  from rest r2 g2(1) have "check_win n ed drawn g2 = Some r" by simp
  from check_win_swept [OF wf2 st2 this] obtain g' where
    g': "r = Returned g'" "g' = g2 \<or> swept g' \<and> \<not> bound g'" by blast
  have "within h g' T" if "in_progress g'"
  proof -
    from that g'(2) have "g' = g2" by (auto simp: in_progress_def)
    with that g2(3) have "within ?g1 g' T" by simp
    with w1 show ?thesis by (rule within_trans)
  qed
  with g'(1) show ?thesis by blast
qed

lemma reveal_within_all: "reveal_within n ed drawn"
proof (induction n)
  case 0
  show ?case by (simp add: reveal_within_def)
next
  case (Suc n)
  show ?case
    unfolding reveal_within_def
    using activate_square_Suc_within [OF Suc prepare_started]
    by blast
qed

lemma spreads_region: "spreads g (region g i)"
  unfolding spreads_def by (blast intro: region.spread)

lemma region_revealed:
  assumes cl: "closed_over h g'" and i: "i \<in> revealed_by h g'"
  shows "region h i \<subseteq> revealed_by h g'"
proof
  fix j
  assume "j \<in> region h i"
  then show "j \<in> revealed_by h g'"
  proof (induction rule: region.induct)
    case start
    from i show ?case .
  next
    case (spread j n)
    from spread.IH have "Some j \<in> set (activated_squares g')"
      "Some j \<notin> set (activated_squares h)" by (simp_all add: revealed_by_def)
    with cl spread.hyps(2,3)
    have "Some n \<in> set (marked_squares h) \<or> Some n \<in> set (activated_squares g')"
      unfolding closed_over_def by blast
    with spread.hyps(4) show ?case by (auto simp: revealed_by_def hidden_free_def)
  qed
qed

lemma reveal_region:
  assumes wf: "well_formed g" and prog: "in_progress g" and sq: "get_square g x y = Some i"
    and smp: "activated_squares g = [] \<longrightarrow>
        is_sample (population g i) (undiscovered_mines g) drawn"
    and hf: "hidden_free (prepared g drawn) i"
    and safe: "Some i \<notin> set (mine_squares (prepared g drawn))"
  shows "\<exists>g'. left_click ed drawn g x y = Some (Returned g') \<and>
     cascade_post ed (prepared g drawn) g' \<and>
     region (prepared g drawn) i \<subseteq> revealed_by g g' \<and>
     (in_progress g' \<longrightarrow> revealed_by g g' = region (prepared g drawn) i) \<and>
     (\<not> in_progress g' \<longrightarrow> won ed g' \<and> steps False (prepared g drawn) g')"
proof -
  let ?h = "prepared g drawn"
  let ?n = "size g * size g + 1"
  from wf smp have wfh: "well_formed ?h" by (rule prepared_well_formed)
  from prog have progh: "in_progress ?h"
    by (simp add: prepared_def mined_def in_progress_def)
  have act: "activated_squares ?h = activated_squares g"
    by (simp add: prepared_def mined_def)
  then have rb: "revealed_by g g' = revealed_by ?h g'" for g'
    by (simp add: revealed_by_def)
  note prep = prepare_in_grid [OF sq smp]
  obtain r where r: "activate_square (Suc ?n) ed drawn g x y True = Some r"
    using activate_square_returns [of g ed drawn x y True] by (auto simp: depth_bound_Suc)
  from prog sq have lc: "left_click ed drawn g x y = activate_square (Suc ?n) ed drawn g x y True"
    by (simp add: left_click_def in_progress_def depth_bound_Suc)
  from safe_reveal_outcome [OF prep wfh progh sq hf safe r]
  obtain g' where g': "r = Returned g'" "cascade_post ed ?h g'" by blast
  from activate_square_Suc_closed [OF reveal_closed_all prep wfh sq r] g'(1)
  have cl: "closed_over ?h g'" by simp
  from activate_square_Suc_within [OF reveal_within_all prep wfh progh sq hf safe
      region.start spreads_region r] g'(1)
  have wi: "in_progress g' \<longrightarrow> within ?h g' (region ?h i)" by simp
  from activate_square_Suc_traced [OF reveal_traced_all prep wfh sq r] g'(1) hf
  have "Some i \<in> set (activated_squares g')" by (auto simp: hidden_free_def)
  with hf have "i \<in> revealed_by ?h g'" by (simp add: revealed_by_def hidden_free_def)
  from region_revealed [OF cl this] have sub: "region ?h i \<subseteq> revealed_by ?h g'" .
  have eq: "revealed_by ?h g' = region ?h i" if "in_progress g'"
    using that wi sub by (auto simp: within_def revealed_by_def)
  have w: "won ed g' \<and> steps False ?h g'" if "\<not> in_progress g'"
  proof -
    from cascade_post_text [OF g'(2) progh] that have "won ed g'" by auto
    moreover from g'(2) have "steps False ?h g'"
      by (auto simp: cascade_post_def dest: uncovers_steps)
    ultimately show ?thesis ..
  qed
  from lc r g' sub eq w show ?thesis by (simp add: rb)
qed

text \<open>
  C4, amended. Take a state a game can reach, in progress, and a left click on a hidden
  square without a flag that is not a mine, whatever its count; \<open>prepared g drawn\<close> is
  the game with the mines placed when no square is revealed yet, \<open>drawn\<close> being then a
  valid sample. The click returns, and reveals at least the squares the cascade reaches:
  the clicked square and, around every reached square with no mine next to it, the
  squares that were hidden and without a flag. If the game is still in progress
  afterwards, these are exactly the squares revealed. Otherwise the text is the winning
  one, the squares are unbound, and every square without a flag is revealed, the mines
  too.
\<close>

theorem cascade_exact:
  assumes "reachable ed g" and "in_progress g" and "get_square g x y = Some i"
    and "activated_squares g = [] \<longrightarrow>
        is_sample (population g i) (undiscovered_mines g) drawn"
    and "hidden_free (prepared g drawn) i"
    and "Some i \<notin> set (mine_squares (prepared g drawn))"
  shows "\<exists>g'. left_click ed drawn g x y = Some (Returned g') \<and>
     region (prepared g drawn) i \<subseteq> revealed_by g g' \<and>
     (in_progress g' \<longrightarrow> revealed_by g g' = region (prepared g drawn) i) \<and>
     (\<not> in_progress g' \<longrightarrow> ending_text g' = win_message ed \<and> \<not> bound g' \<and>
        (\<forall>j < size g * size g.
           Some j \<in> set (activated_squares g') \<longleftrightarrow> Some j \<notin> set (marked_squares g)))"
proof -
  let ?h = "prepared g drawn"
  from assms(1) have wf: "well_formed g"
    using reachable_flags_ok by (auto simp: flags_ok_def)
  from wf assms(4) have wfh: "well_formed ?h" by (rule prepared_well_formed)
  have h: "size ?h = size g" "marked_squares ?h = marked_squares g"
    by (simp_all add: prepared_def mined_def)
  from reveal_region [OF wf assms(2-6), of ed] obtain g' where
    g': "left_click ed drawn g x y = Some (Returned g')"
      "region ?h i \<subseteq> revealed_by g g'"
      "in_progress g' \<longrightarrow> revealed_by g g' = region ?h i"
      "\<not> in_progress g' \<longrightarrow> won ed g' \<and> steps False ?h g'" by blast
  have "ending_text g' = win_message ed \<and> \<not> bound g' \<and>
        (\<forall>j < size g * size g.
           Some j \<in> set (activated_squares g') \<longleftrightarrow> Some j \<notin> set (marked_squares g))"
    if "\<not> in_progress g'"
  proof -
    from that g'(4) have w: "won ed g'" and st: "steps False ?h g'" by simp_all
    note f = won_facts [OF w st wfh]
    from f(4) have sb: "size g' = size g" "marked_squares g' = marked_squares g"
      by (simp_all add: same_board_def h)
    from swept_revealed [OF f(1,5)] f(2,3) show ?thesis by (simp add: sb)
  qed
  with g'(1-3) show ?thesis by blast
qed

lemma pocket_sample:
  "is_sample (population (start_game 96) 0) (undiscovered_mines (start_game 96)) pocket_mines"
  by (auto simp: is_sample_def population_def start_game_def pocket_mines_def)

lemma pocket_facts:
  "size pocket = 10" "activated_squares pocket = []" "marked_squares pocket = []"
  "undiscovered_squares pocket = 4" "prepared (start_game 96) pocket_mines = pocket"
  "well_formed (start_game 96)" "in_progress (start_game 96)"
  "get_square (start_game 96) 0 0 = Some 0" "size (start_game 96) = 10"
  "activated_squares (start_game 96) = []" "marked_squares (start_game 96) = []"
  by (simp_all add: pocket_def prepared_def mined_def start_game_def well_formed_def
        in_progress_def get_square_def)

lemma pocket_mine: "Some j \<in> set (mine_squares pocket) \<longleftrightarrow> 2 \<le> j \<and> j < 10 \<or> 12 \<le> j \<and> j < 100"
proof -
  have "mine_squares pocket = map Some [2..<10] @ map Some [12..<100]"
    unfolding pocket_def mined_def start_game_def pocket_mines_def by simp
  then show ?thesis
    by (simp only: set_append set_map set_upt) (auto simp: image_iff)
qed

lemma pocket_none: "None \<notin> set (mine_squares pocket)"
  by (simp add: pocket_def mined_def start_game_def)

lemma pocket_hidden: "hidden_free pocket j \<longleftrightarrow> j < 100"
  by (simp add: hidden_free_def pocket_facts)

lemma pocket_counts:
  "adjacent_mines pocket 0 = 0" "adjacent_mines pocket 1 \<noteq> 0"
  "adjacent_mines pocket 10 \<noteq> 0" "adjacent_mines pocket 11 \<noteq> 0"
  by (simp_all add: adjacent_mines_filter window_def get_square_def pocket_facts pocket_mine
        pocket_none)

lemma pocket_corner: "neighbours pocket 0 = {1, 10, 11}"
proof (intro set_eqI iffI)
  fix n
  assume "n \<in> neighbours pocket 0"
  then have "n < 100" "n \<noteq> 0" "n mod 10 \<le> 1" "n div 10 \<le> 1"
    by (simp_all add: neighbours_def pocket_facts)
  then have "n = 1 \<or> n = 10 \<or> n = 11" by presburger
  then show "n \<in> {1, 10, 11}" by simp
next
  fix n :: nat
  assume "n \<in> {1, 10, 11}"
  then show "n \<in> neighbours pocket 0"
    by (auto simp: neighbours_def pocket_facts)
qed

lemma pocket_region: "region pocket 0 = {0, 1, 10, 11}"
proof (intro set_eqI iffI)
  fix j
  assume "j \<in> region pocket 0"
  then show "j \<in> {0, 1, 10, 11}"
  proof (induction rule: region.induct)
    case start
    show ?case by simp
  next
    case (spread j n)
    from spread.IH spread.hyps(2) pocket_counts have "j = 0" by auto
    with spread.hyps(3) pocket_corner show ?case by auto
  qed
next
  fix j :: nat
  assume "j \<in> {0, 1, 10, 11}"
  then consider "j = 0" | "j \<in> neighbours pocket 0" by (auto simp: pocket_corner)
  then show "j \<in> region pocket 0"
  proof cases
    case 1
    then show ?thesis by (simp add: region.start)
  next
    case 2
    from region.start pocket_counts(1) 2 show ?thesis
    proof (rule region.spread)
      from 2 show "hidden_free pocket j" by (simp add: pocket_hidden neighbours_def pocket_facts)
    qed
  qed
qed

lemma pocket_safe_hidden: "safe_hidden pocket = {0, 1, 10, 11}"
  by (auto simp: safe_hidden_def pocket_facts pocket_mine)

text \<open>
  C4, as stated, fails when the cascade reveals the last safe square: \<open>check_win\<close> then
  calls \<open>end_game\<close>, which reveals the mines. In a new game with 96 mines, let the first
  click, on \<open>(0, 0)\<close>, draw every square but 0, 1, 10 and 11. Square 0 has no mine next to
  it, the squares 1, 10 and 11 around it have: the cascade reaches these four squares
  only. The click wins the game, and the square 99, a mine far from them, is revealed.
\<close>

theorem cascade_beyond_border:
  "list_pop [0..<size (start_game 96) ^ 2] (0 * int (size (start_game 96)) + 0) =
     Inr (population (start_game 96) 0) \<and>
   is_sample (population (start_game 96) 0) (undiscovered_mines (start_game 96)) pocket_mines \<and>
   prepared (start_game 96) pocket_mines = pocket \<and>
   hidden_free pocket 0 \<and> Some 0 \<notin> set (mine_squares pocket) \<and>
   adjacent_mines pocket 0 = 0 \<and> neighbours pocket 0 = {1, 10, 11} \<and>
   adjacent_mines pocket 1 \<noteq> 0 \<and> adjacent_mines pocket 10 \<noteq> 0 \<and>
   adjacent_mines pocket 11 \<noteq> 0 \<and> region pocket 0 = {0, 1, 10, 11} \<and>
   (\<forall>ed. \<exists>g'. left_click ed pocket_mines (start_game 96) 0 0 = Some (Returned g') \<and>
      ending_text g' = win_message ed \<and>
      Some 99 \<in> set (mine_squares g') \<and> Some 99 \<in> set (activated_squares g') \<and>
      images g' 99 = 9)"
proof -
  let ?g = "start_game 96"
  have hf: "hidden_free (prepared ?g pocket_mines) 0"
    and safe: "Some 0 \<notin> set (mine_squares (prepared ?g pocket_mines))"
    by (simp_all add: pocket_facts pocket_hidden pocket_mine)
  have smp: "activated_squares ?g = [] \<longrightarrow>
      is_sample (population ?g 0) (undiscovered_mines ?g) pocket_mines"
    using pocket_sample by simp
  have wfh: "well_formed pocket"
    using prepared_well_formed [OF pocket_facts(6) smp] by (simp add: pocket_facts)
  have "\<exists>g'. left_click ed pocket_mines ?g 0 0 = Some (Returned g') \<and>
      ending_text g' = win_message ed \<and>
      Some 99 \<in> set (mine_squares g') \<and> Some 99 \<in> set (activated_squares g') \<and>
      images g' 99 = 9" for ed
  proof -
    from reveal_region [OF pocket_facts(6,7,8) smp hf safe, of ed]
    obtain g' where g': "left_click ed pocket_mines ?g 0 0 = Some (Returned g')"
      "cascade_post ed pocket g'" "region pocket 0 \<subseteq> revealed_by ?g g'"
      "\<not> in_progress g' \<longrightarrow> won ed g' \<and> steps False pocket g'"
      by (auto simp: pocket_facts)
    have over: "\<not> in_progress g'"
    proof
      assume p: "in_progress g'"
      with g'(2) have us: "uncovers pocket g'" and c: "g' = pocket \<or> 0 < undiscovered_squares g'"
        by (auto simp: cascade_post_def won_def in_progress_def)
      from g'(3) have a: "Some 0 \<in> set (activated_squares g')"
        "Some 1 \<in> set (activated_squares g')" "Some 10 \<in> set (activated_squares g')"
        "Some 11 \<in> set (activated_squares g')"
        by (auto simp: pocket_region revealed_by_def)
      with c have pos: "0 < undiscovered_squares g'" by (auto simp: pocket_facts)
      note st = uncovers_steps [OF us, where c = False]
      from steps_same_board [OF st] steps_activated [OF st]
      have "safe_hidden g' \<subseteq> safe_hidden pocket"
        by (auto simp: safe_hidden_def same_board_def)
      with a have "safe_hidden g' = {}"
        unfolding pocket_safe_hidden by (auto simp: safe_hidden_def)
      with steps_surplus [OF st] have "undiscovered_squares g' = 0"
        by (simp add: pocket_safe_hidden pocket_facts)
      with pos show False by simp
    qed
    with g'(4) have w: "won ed g'" and st: "steps False pocket g'" by simp_all
    note f = won_facts [OF w st wfh]
    from f(4) have sb: "size g' = 10" "marked_squares g' = []"
      "mine_squares g' = mine_squares pocket"
      by (simp_all add: same_board_def pocket_facts)
    from sb(3) have m: "Some 99 \<in> set (mine_squares g')" by (simp add: pocket_mine)
    from swept_revealed [OF f(1,5), of 99] have r: "Some 99 \<in> set (activated_squares g')"
      by (simp add: sb)
    with f(6) m have "images g' 99 = 9" by (simp add: shown_def pocket_facts)
    with g'(1) f(3) m r show ?thesis by blast
  qed
  moreover have "list_pop [0..<size ?g ^ 2] (0 * int (size ?g) + 0) = Inr (population ?g 0)"
    using list_pop_upt [of 0 "size ?g ^ 2"] by (simp add: population_def pocket_facts)
  ultimately show ?thesis
    using pocket_sample pocket_facts(5) pocket_hidden [of 0] pocket_mine [of 0] pocket_counts
      pocket_corner pocket_region
    by simp
qed

theorem cascade_exact_witness:
  "reachable Basic (start_game 96) \<and> in_progress (start_game 96) \<and>
   get_square (start_game 96) 0 0 = Some 0 \<and>
   is_sample (population (start_game 96) 0) (undiscovered_mines (start_game 96)) pocket_mines \<and>
   hidden_free (prepared (start_game 96) pocket_mines) 0 \<and>
   Some 0 \<notin> set (mine_squares (prepared (start_game 96) pocket_mines)) \<and>
   (\<exists>g'. left_click Basic pocket_mines (start_game 96) 0 0 = Some (Returned g') \<and>
      {0, 1, 10, 11} \<subseteq> revealed_by (start_game 96) g')"
proof -
  let ?g = "start_game 96"
  have hf: "hidden_free (prepared ?g pocket_mines) 0"
    and safe: "Some 0 \<notin> set (mine_squares (prepared ?g pocket_mines))"
    by (simp_all add: pocket_facts pocket_hidden pocket_mine)
  have smp: "activated_squares ?g = [] \<longrightarrow>
      is_sample (population ?g 0) (undiscovered_mines ?g) pocket_mines"
    using pocket_sample by simp
  have rch: "reachable Basic ?g" by (rule reachable.start) simp
  from cascade_exact [OF rch pocket_facts(7,8) smp hf safe]
  have "\<exists>g'. left_click Basic pocket_mines ?g 0 0 = Some (Returned g') \<and>
      {0, 1, 10, 11} \<subseteq> revealed_by ?g g'"
    unfolding pocket_facts(5) pocket_region by blast
  with rch pocket_facts(7,8) pocket_sample hf safe show ?thesis by blast
qed

end
